theory Spec2Isabelle
  imports Main "HOL-Library.Sublist"
begin

section \<open>Values of the rendering engine\<close>

text \<open>
  The renderers of \<^verbatim>\<open>src/output\<close> work on \<^verbatim>\<open>Record<string, unknown>\<close>: objects as they
  come back from the API. A value is modelled as the JavaScript value it is: undefined,
  null, a boolean, a number, a string, an array or an object. An object is the list of its
  own enumerable entries in enumeration order (\<^verbatim>\<open>Object.entries\<close>): the keys that are
  array indices first, in numeric order, then the other keys in insertion order. The
  objects are plain objects: their prototype is \<^verbatim>\<open>Object.prototype\<close>, whose properties
  every object inherits and which \<^verbatim>\<open>in\<close> and property access see.

  Numbers are modelled as mathematical integers and rendered in decimal; this agrees with
  \<^verbatim>\<open>String(n)\<close> for every integral number of magnitude below \<open>10^21\<close>, and the
  arithmetic on them is exact below \<open>2^53\<close>. Strings are lists of characters, one
  character for one unit counted by \<^verbatim>\<open>.length\<close>.
\<close>

datatype jsval =
    JUndefined
  | JNull
  | JBool bool
  | JNum int
  | JStr string
  | JArr "jsval list"
  | JObj "(string \<times> jsval) list"
  | JBuiltin string

text \<open>
  \<open>JBuiltin name\<close> is the built-in function of that name, as an object inherits it from
  \<^verbatim>\<open>Object.prototype\<close> (\<^verbatim>\<open>Object\<close> itself, \<^verbatim>\<open>toString\<close>, \<^verbatim>\<open>valueOf\<close> and the others).
\<close>

type_synonym jsobj = "(string \<times> jsval) list"

abbreviation dquote :: char where
  "dquote \<equiv> CHR 0x22"

abbreviation newline :: char where
  "newline \<equiv> CHR 0x0A"

subsection \<open>Language built-ins\<close>

text \<open>\<^verbatim>\<open>Array.prototype.join\<close> on an array of strings.\<close>

fun join :: "string \<Rightarrow> string list \<Rightarrow> string" where
  "join sep [] = []"
| "join sep [x] = x"
| "join sep (x # y # ys) = x @ sep @ join sep (y # ys)"

text \<open>Decimal rendering of a number, as \<^verbatim>\<open>String(n)\<close> and template literals do.\<close>

definition digit_char :: "nat \<Rightarrow> char" where
  "digit_char d =
     (if d = 0 then CHR ''0'' else if d = 1 then CHR ''1'' else if d = 2 then CHR ''2''
      else if d = 3 then CHR ''3'' else if d = 4 then CHR ''4'' else if d = 5 then CHR ''5''
      else if d = 6 then CHR ''6'' else if d = 7 then CHR ''7'' else if d = 8 then CHR ''8''
      else CHR ''9'')"

function showNat :: "nat \<Rightarrow> string" where
  "showNat n = (if n < 10 then [digit_char n] else showNat (n div 10) @ [digit_char (n mod 10)])"
  by pat_completeness auto
termination
  by (relation "measure (\<lambda>n. n)") auto

declare showNat.simps [simp del]

definition showInt :: "int \<Rightarrow> string" where
  "showInt i = (if i < 0 then CHR ''-'' # showNat (nat (- i)) else showNat (nat i))"

text \<open>
  \<^verbatim>\<open>String(value)\<close>. An array renders as its elements joined by commas, with null and
  undefined elements rendered empty; a plain object renders as \<^verbatim>\<open>[object Object]\<close>.
  A built-in function renders as the runtime's engine prints native code; ECMAScript fixes
  that text up to white space.
\<close>

fun js_String :: "jsval \<Rightarrow> string" where
  "js_String JUndefined = ''undefined''"
| "js_String JNull = ''null''"
| "js_String (JBool b) = (if b then ''true'' else ''false'')"
| "js_String (JNum n) = showInt n"
| "js_String (JStr s) = s"
| "js_String (JArr xs) =
     join '','' (map (\<lambda>x. if x = JUndefined \<or> x = JNull then [] else js_String x) xs)"
| "js_String (JObj kvs) = ''[object Object]''"
| "js_String (JBuiltin name) =
     ''function '' @ name @ ''() {'' @ [newline] @ ''    [native code]'' @ [newline] @ ''}''"

text \<open>
  The properties that a plain object inherits from \<^verbatim>\<open>Object.prototype\<close>, none of them
  enumerable. \<^verbatim>\<open>__proto__\<close> reads as the prototype itself, an object without own
  enumerable entries.
\<close>

definition objectPrototype :: "(string \<times> jsval) list" where
  "objectPrototype =
     [(''constructor'', JBuiltin ''Object''),
      (''__defineGetter__'', JBuiltin ''__defineGetter__''),
      (''__defineSetter__'', JBuiltin ''__defineSetter__''),
      (''hasOwnProperty'', JBuiltin ''hasOwnProperty''),
      (''__lookupGetter__'', JBuiltin ''__lookupGetter__''),
      (''__lookupSetter__'', JBuiltin ''__lookupSetter__''),
      (''isPrototypeOf'', JBuiltin ''isPrototypeOf''),
      (''propertyIsEnumerable'', JBuiltin ''propertyIsEnumerable''),
      (''toString'', JBuiltin ''toString''),
      (''valueOf'', JBuiltin ''valueOf''),
      (''__proto__'', JObj []),
      (''toLocaleString'', JBuiltin ''toLocaleString'')]"

definition js_keys :: "jsobj \<Rightarrow> string list" where
  "js_keys obj = map fst obj"

text \<open>
  Property access \<^verbatim>\<open>obj[key]\<close> and the presence check \<^verbatim>\<open>key in obj\<close>: the own
  properties first, then the inherited ones.
\<close>

definition js_get :: "jsobj \<Rightarrow> string \<Rightarrow> jsval" where
  "js_get obj k =
     (case map_of obj k of
        Some v \<Rightarrow> v
      | None \<Rightarrow> (case map_of objectPrototype k of None \<Rightarrow> JUndefined | Some v \<Rightarrow> v))"

definition js_in :: "string \<Rightarrow> jsobj \<Rightarrow> bool" where
  "js_in k obj = (k \<in> set (js_keys obj) \<or> k \<in> set (map fst objectPrototype))"

text \<open>
  Array indices: the canonical decimal strings of the integers from 0 to \<open>2^32 - 2\<close>. An
  object enumerates its own keys that are array indices first, in ascending numeric
  order, and its other keys after them, in insertion order.
\<close>

definition digitValue :: "char \<Rightarrow> nat" where
  "digitValue c = length (takeWhile (\<lambda>d. d \<noteq> c) ''0123456789'')"

definition indexValue :: "string \<Rightarrow> nat" where
  "indexValue s = foldl (\<lambda>n c. 10 * n + digitValue c) 0 s"

definition isArrayIndex :: "string \<Rightarrow> bool" where
  "isArrayIndex s =
     (s \<noteq> [] \<and> list_all (\<lambda>c. c \<in> set ''0123456789'') s
      \<and> (s = ''0'' \<or> hd s \<noteq> CHR ''0'') \<and> indexValue s < 4294967295)"

text \<open>
  The assignment \<^verbatim>\<open>obj[key] = value\<close>. An own key keeps its place in the enumeration
  order. Assigning \<^verbatim>\<open>__proto__\<close>, when it is not an own key, goes to the inherited setter:
  it creates no key (the prototype it may set is not consulted afterwards). A new key
  that is an array index is placed among the index keys, in numeric order; any other new
  key goes to the end.
\<close>

fun replaceOwn :: "jsobj \<Rightarrow> string \<Rightarrow> jsval \<Rightarrow> jsobj" where
  "replaceOwn [] k v = []"
| "replaceOwn ((k', v') # rest) k v =
     (if k' = k then (k, v) # rest else (k', v') # replaceOwn rest k v)"

fun insertIndex :: "jsobj \<Rightarrow> string \<Rightarrow> jsval \<Rightarrow> jsobj" where
  "insertIndex [] k v = [(k, v)]"
| "insertIndex ((k', v') # rest) k v =
     (if isArrayIndex k' \<and> indexValue k' < indexValue k
      then (k', v') # insertIndex rest k v
      else (k, v) # (k', v') # rest)"

definition js_set :: "jsobj \<Rightarrow> string \<Rightarrow> jsval \<Rightarrow> jsobj" where
  "js_set obj k v =
     (if k \<in> set (js_keys obj) then replaceOwn obj k v
      else if k = ''__proto__'' then obj
      else if isArrayIndex k then insertIndex obj k v
      else obj @ [(k, v)])"

text \<open>\<^verbatim>\<open>String.prototype.includes\<close>: the argument occurs as a contiguous substring.\<close>

fun str_includes :: "string \<Rightarrow> string \<Rightarrow> bool" where
  "str_includes [] t = (t = [])"
| "str_includes (c # cs) t = (prefix t (c # cs) \<or> str_includes cs t)"

section \<open>Compact formatter (\<^verbatim>\<open>output/compact.ts\<close>)\<close>

definition MAX_STRING_LENGTH :: nat where
  "MAX_STRING_LENGTH = 80"

record CompactOptions =
  co_fields :: "string list option"

record PaginationMeta =
  page :: int
  limit :: int
  totalCount :: int

record ListData =
  items :: "jsobj list"
  pagination :: PaginationMeta

fun formatValue :: "jsval \<Rightarrow> string" where
  "formatValue (JStr s) =
     (let v = (if length s > MAX_STRING_LENGTH then take MAX_STRING_LENGTH s @ ''...'' else s)
      in if CHR '' '' \<in> set v then [dquote] @ v @ [dquote] else v)"
| "formatValue v = js_String v"

text \<open>
  The regular expression \<^verbatim>\<open>/^\d{4}-\d{2}-\d{2}T\d{2}:\d{2}:\d{2}/\<close> as a list of
  character classes matched against a prefix of the string.
\<close>

datatype cclass = Digit | Lit char

fun cclass_ok :: "cclass \<Rightarrow> char \<Rightarrow> bool" where
  "cclass_ok Digit c = (c \<in> set ''0123456789'')"
| "cclass_ok (Lit l) c = (c = l)"

fun matches_prefix :: "cclass list \<Rightarrow> string \<Rightarrow> bool" where
  "matches_prefix [] s = True"
| "matches_prefix (p # ps) [] = False"
| "matches_prefix (p # ps) (c # cs) = (cclass_ok p c \<and> matches_prefix ps cs)"

definition iso_pattern :: "cclass list" where
  "iso_pattern =
     [Digit, Digit, Digit, Digit, Lit CHR ''-'', Digit, Digit, Lit CHR ''-'', Digit, Digit,
      Lit CHR ''T'', Digit, Digit, Lit CHR '':'', Digit, Digit, Lit CHR '':'', Digit, Digit]"

fun isISOTimestamp :: "jsval \<Rightarrow> bool" where
  "isISOTimestamp (JStr s) = matches_prefix iso_pattern s"
| "isISOTimestamp v = False"

definition compressTimestamp :: "string \<Rightarrow> string" where
  "compressTimestamp s = take 10 s"

fun flattenObject :: "jsobj \<Rightarrow> string \<Rightarrow> (string \<times> jsval) list" where
  "flattenObject [] pre = []"
| "flattenObject ((key, val) # rest) pre =
     (let fullKey = (if pre \<noteq> [] then pre @ ''.'' @ key else key) in
      (if val = JNull \<or> val = JUndefined \<or> val = JStr [] then []
       else case val of
           JArr xs \<Rightarrow> [(fullKey, JNum (int (length xs)))]
         | JObj kvs \<Rightarrow> flattenObject kvs fullKey
         | _ \<Rightarrow> if isISOTimestamp val
                then [(fullKey, JStr (compressTimestamp (js_String val)))]
                else [(fullKey, val)])
      @ flattenObject rest pre)"

definition filterFields ::
  "(string \<times> jsval) list \<Rightarrow> string list option \<Rightarrow> (string \<times> jsval) list" where
  "filterFields entries flds =
     (case flds of None \<Rightarrow> entries
      | Some fs \<Rightarrow> filter (\<lambda>(k, v). k \<in> set fs) entries)"

text \<open>\<^verbatim>\<open>options?.fields\<close> of an optional options bag.\<close>

definition opt_fields :: "CompactOptions option \<Rightarrow> string list option" where
  "opt_fields options = (case options of None \<Rightarrow> None | Some opts \<Rightarrow> co_fields opts)"

definition compactPairs :: "jsobj \<Rightarrow> CompactOptions option \<Rightarrow> string list" where
  "compactPairs data options =
     map (\<lambda>(k, v). k @ ''='' @ formatValue v)
       (filterFields (flattenObject data []) (opt_fields options))"

definition formatCompactItem :: "string \<Rightarrow> jsobj \<Rightarrow> CompactOptions option \<Rightarrow> string" where
  "formatCompactItem type data options = type @ '' '' @ join '' '' (compactPairs data options)"

text \<open>
  The loop body of \<^verbatim>\<open>formatCompactList\<close>: the line of the item at 0-based index \<open>i\<close>.
  The items are objects, so the fallback of \<^verbatim>\<open>items[i] ?? {}\<close> is never taken.
\<close>

definition compactLine :: "CompactOptions option \<Rightarrow> nat \<Rightarrow> jsobj \<Rightarrow> string" where
  "compactLine options i item =
     ''  ['' @ showInt (int i + 1) @ ''] '' @ join '' '' (compactPairs item options)"

fun compactLines :: "CompactOptions option \<Rightarrow> nat \<Rightarrow> jsobj list \<Rightarrow> string list" where
  "compactLines options i [] = []"
| "compactLines options i (item # rest) =
     compactLine options i item # compactLines options (Suc i) rest"

definition rangeStart :: "PaginationMeta \<Rightarrow> int" where
  "rangeStart p = (page p - 1) * limit p + 1"

definition rangeEnd :: "ListData \<Rightarrow> int" where
  "rangeEnd d = rangeStart (pagination d) + int (length (items d)) - 1"

definition compactHeader :: "string \<Rightarrow> ListData \<Rightarrow> string" where
  "compactHeader type d =
     type @ '' '' @ showInt (rangeStart (pagination d)) @ ''-'' @ showInt (rangeEnd d)
       @ ''/'' @ showInt (totalCount (pagination d)) @ '' page='' @ showInt (page (pagination d))"

definition nextHint :: "string \<Rightarrow> PaginationMeta \<Rightarrow> string" where
  "nextHint type p =
     ''next: polar '' @ type @ '' list --page '' @ showInt (page p + 1)
       @ '' --limit '' @ showInt (limit p)"

definition formatCompactList :: "string \<Rightarrow> ListData \<Rightarrow> CompactOptions option \<Rightarrow> string" where
  "formatCompactList type d options =
     (if totalCount (pagination d) = 0 \<and> length (items d) = 0 then type @ '' 0/0''
      else
        let lines = [compactHeader type d] @ compactLines options 0 (items d);
            hasMorePages = rangeEnd d < totalCount (pagination d);
            lines = (if hasMorePages then lines @ [nextHint type (pagination d)] else lines)
        in join [newline] lines)"

definition formatCompactCount :: "int \<Rightarrow> string" where
  "formatCompactCount n = showInt n"

section \<open>Field selection (\<^verbatim>\<open>output/fields.ts\<close>)\<close>

definition RESOURCE_DEFAULT_FIELDS :: "(string \<times> string list) list" where
  "RESOURCE_DEFAULT_FIELDS =
    [(''organization'', [''id'', ''name'', ''slug'', ''status'']),
     (''product'', [''id'', ''name'', ''isRecurring'', ''isArchived'', ''prices'', ''benefits'']),
     (''subscription'',
        [''id'', ''status'', ''customer'', ''product'', ''currentPeriodEnd'', ''amount'',
         ''currency'']),
     (''order'',
        [''id'', ''status'', ''product'', ''customer'', ''totalAmount'', ''currency'',
         ''createdAt'']),
     (''customer'', [''id'', ''email'', ''name'', ''type'', ''createdAt'']),
     (''checkout'', [''id'', ''status'', ''products'', ''totalAmount'', ''currency'', ''url'']),
     (''checkoutLink'', [''id'', ''label'', ''product'', ''url'', ''createdAt'']),
     (''benefit'', [''id'', ''type'', ''description'', ''organizationId'']),
     (''benefitGrant'', [''id'', ''benefitId'', ''customerId'', ''isGranted'', ''isRevoked'']),
     (''licenseKey'',
        [''id'', ''displayKey'', ''status'', ''customer'', ''usage'', ''limitActivations'']),
     (''discount'', [''id'', ''name'', ''type'', ''amount'', ''duration'', ''code'']),
     (''customField'', [''id'', ''type'', ''slug'', ''name'']),
     (''file'', [''id'', ''name'', ''mimeType'', ''size'', ''createdAt'']),
     (''refund'', [''id'', ''status'', ''reason'', ''amount'', ''currency'', ''orderId'']),
     (''dispute'', [''id'', ''status'', ''amount'', ''currency'', ''orderId'']),
     (''payment'', [''id'', ''status'', ''amount'', ''currency'', ''method'']),
     (''meter'', [''id'', ''name'', ''aggregation'', ''createdAt'']),
     (''customerMeter'',
        [''id'', ''meterId'', ''customerId'', ''consumedUnits'', ''creditedUnits'', ''balance'']),
     (''event'', [''id'', ''name'', ''source'', ''customerId'', ''timestamp'']),
     (''eventType'', [''id'', ''name'', ''isArchived'']),
     (''webhook'', [''id'', ''url'', ''events'', ''enabled'']),
     (''member'', [''id'', ''email'', ''name'', ''role'']),
     (''orgToken'', [''id'', ''comment'', ''scopes'', ''expiresAt''])]"

datatype FieldSelector = Fields "string list" | All | Minimal

definition getDefaultFields :: "string \<Rightarrow> string list" where
  "getDefaultFields resource =
     (case map_of RESOURCE_DEFAULT_FIELDS resource of None \<Rightarrow> [''id''] | Some fs \<Rightarrow> fs)"

definition identifiers :: "string list" where
  "identifiers = [''name'', ''email'', ''slug'', ''displayKey'', ''key'', ''url'', ''label'']"

text \<open>The loop over \<^verbatim>\<open>identifiers\<close>, which breaks at the first hit.\<close>

fun minimalLoop :: "jsobj \<Rightarrow> string list \<Rightarrow> jsobj \<Rightarrow> jsobj" where
  "minimalLoop data [] result = result"
| "minimalLoop data (key # keys) result =
     (if js_in key data \<and> js_get data key \<noteq> JNull \<and> js_get data key \<noteq> JUndefined
      then js_set result key (js_get data key)
      else minimalLoop data keys result)"

text \<open>The loop over an explicit field list.\<close>

fun fieldsLoop :: "jsobj \<Rightarrow> string list \<Rightarrow> jsobj \<Rightarrow> jsobj" where
  "fieldsLoop data [] result = result"
| "fieldsLoop data (field # rest) result =
     fieldsLoop data rest
       (if js_in field data then js_set result field (js_get data field) else result)"

fun selectFields :: "jsobj \<Rightarrow> FieldSelector \<Rightarrow> jsobj" where
  "selectFields data All = data"
| "selectFields data Minimal = minimalLoop data identifiers [(''id'', js_get data ''id'')]"
| "selectFields data (Fields fs) = fieldsLoop data fs []"

section \<open>Table formatter (\<^verbatim>\<open>output/table.ts\<close>)\<close>

text \<open>
  The table formatter draws its separator with the box-drawing character U+2500 and
  makes the header bold with \<^verbatim>\<open>chalk.bold\<close>; the JSON formatters call
  \<^verbatim>\<open>JSON.stringify\<close>. The three are taken from the environment.
\<close>

record Env =
  hbar :: char
  bold :: "string \<Rightarrow> string"
  stringify :: "jsval \<Rightarrow> string"

record TableOptions =
  to_fields :: "string list option"
  to_noColor :: bool

definition MAX_VALUE_LENGTH :: nat where
  "MAX_VALUE_LENGTH = 40"

fun formatCellValue :: "jsval \<Rightarrow> string" where
  "formatCellValue JNull = []"
| "formatCellValue JUndefined = []"
| "formatCellValue (JArr xs) = ''['' @ showInt (int (length xs)) @ '']''"
| "formatCellValue (JObj obj) =
     (if js_in ''id'' obj then js_String (js_get obj ''id'')
      else ''{'' @ showInt (int (length (js_keys obj))) @ '' keys}'')"
| "formatCellValue v =
     (if isISOTimestamp v then compressTimestamp (js_String v)
      else let str = js_String v in
        if length str > MAX_VALUE_LENGTH then take (MAX_VALUE_LENGTH - 3) str @ ''...''
        else str)"

text \<open>Gathering the column names of all items, in first-seen order.\<close>

fun pushNew :: "string list \<Rightarrow> string list \<Rightarrow> string list" where
  "pushNew columns [] = columns"
| "pushNew columns (key # keys) =
     pushNew (if key \<in> set columns then columns else columns @ [key]) keys"

fun gatherColumns :: "string list \<Rightarrow> jsobj list \<Rightarrow> string list" where
  "gatherColumns columns [] = columns"
| "gatherColumns columns (item # rest) = gatherColumns (pushNew columns (js_keys item)) rest"

definition padEnd :: "string \<Rightarrow> nat \<Rightarrow> string" where
  "padEnd s w = s @ replicate (w - length s) CHR '' ''"

text \<open>\<^verbatim>\<open>xs[i] ?? d\<close> on an array.\<close>

definition nth_or :: "'a list \<Rightarrow> nat \<Rightarrow> 'a \<Rightarrow> 'a" where
  "nth_or xs i d = (if i < length xs then xs ! i else d)"

definition useColor :: "TableOptions option \<Rightarrow> bool" where
  "useColor options = (case options of None \<Rightarrow> True | Some opts \<Rightarrow> \<not> to_noColor opts)"

definition formatTable :: "Env \<Rightarrow> jsobj list \<Rightarrow> TableOptions option \<Rightarrow> string" where
  "formatTable env its options =
     (if length its = 0 then ''No results.''
      else
        let columns = gatherColumns [] its;
            rows = map (\<lambda>item. map (\<lambda>col. formatCellValue (js_get item col)) columns) its;
            widths = map (\<lambda>(i, col).
                        max (length col)
                          (foldl (\<lambda>m row. max m (length (nth_or row i []))) 0 rows))
                       (enumerate 0 columns);
            header = join ''  '' (map (\<lambda>(i, col). padEnd col (nth_or widths i 0))
                                     (enumerate 0 columns));
            separator = join ''  '' (map (\<lambda>w. replicate w (hbar env)) widths);
            dataLines = map (\<lambda>row. join ''  '' (map (\<lambda>(i, cell). padEnd cell (nth_or widths i 0))
                                                     (enumerate 0 row))) rows
        in if useColor options then join [newline] ([bold env header, separator] @ dataLines)
           else join [newline] ([header, separator] @ dataLines))"

definition formatTableItem :: "Env \<Rightarrow> string \<Rightarrow> jsobj \<Rightarrow> TableOptions option \<Rightarrow> string" where
  "formatTableItem env type data options =
     (if length data = 0 then ''No '' @ type @ '' data.''
      else
        let keyWidth = foldl max 0 (map (\<lambda>(k, v). length k) data);
            separator = replicate keyWidth (hbar env) @ ''  ''
                          @ replicate MAX_VALUE_LENGTH (hbar env);
            headerKey = padEnd ''Key'' keyWidth;
            headerVal = ''Value'';
            header = headerKey @ ''  '' @ headerVal;
            lines = map (\<lambda>(key, val).
                      let paddedKey = padEnd key keyWidth; v = formatCellValue val
                      in if useColor options then bold env paddedKey @ ''  '' @ v
                         else paddedKey @ ''  '' @ v) data
        in if useColor options then join [newline] ([bold env header, separator] @ lines)
           else join [newline] ([header, separator] @ lines))"

section \<open>CSV and TSV formatters (\<^verbatim>\<open>output/csv.ts\<close>)\<close>

text \<open>
  The cell normalizer of the CSV module. Its branch for \<^verbatim>\<open>Date\<close> instances has no
  counterpart here: the values of the model are those of the data model, which has no
  dates other than ISO strings.
\<close>

fun csvCellValue :: "jsval \<Rightarrow> string" where
  "csvCellValue JNull = []"
| "csvCellValue JUndefined = []"
| "csvCellValue (JArr xs) = ''['' @ showInt (int (length xs)) @ '']''"
| "csvCellValue (JObj obj) =
     (if js_in ''id'' obj then js_String (js_get obj ''id'')
      else ''{'' @ showInt (int (length (js_keys obj))) @ '' keys}'')"
| "csvCellValue v =
     (if isISOTimestamp v then compressTimestamp (js_String v) else js_String v)"

text \<open>\<^verbatim>\<open>value.replace(/"/g, '""')\<close>.\<close>

fun doubleQuotes :: "string \<Rightarrow> string" where
  "doubleQuotes [] = []"
| "doubleQuotes (c # cs) = (if c = dquote then [dquote, dquote] else [c]) @ doubleQuotes cs"

definition escapeCell :: "string \<Rightarrow> string \<Rightarrow> string" where
  "escapeCell val delimiter =
     (if str_includes val delimiter \<or> str_includes val [newline] \<or> str_includes val [dquote]
      then [dquote] @ doubleQuotes val @ [dquote]
      else val)"

definition formatCSV :: "jsobj list \<Rightarrow> string option \<Rightarrow> string" where
  "formatCSV its delim =
     (if length its = 0 then []
      else
        let delimiter = (case delim of None \<Rightarrow> '','' | Some d \<Rightarrow> d);
            columns = gatherColumns [] its;
            header = join delimiter (map (\<lambda>col. escapeCell col delimiter) columns);
            rows = map (\<lambda>item. join delimiter
                           (map (\<lambda>col. escapeCell (csvCellValue (js_get item col)) delimiter)
                              columns)) its
        in join [newline] (header # rows))"

definition formatTSV :: "jsobj list \<Rightarrow> string" where
  "formatTSV its = formatCSV its (Some [CHR 0x09])"

section \<open>JSON formatters (\<^verbatim>\<open>output/json.ts\<close>)\<close>

definition formatJSON :: "Env \<Rightarrow> jsval \<Rightarrow> string" where
  "formatJSON env data = stringify env data"

definition formatJSONL :: "Env \<Rightarrow> jsval list \<Rightarrow> string" where
  "formatJSONL env its = join [newline] (map (stringify env) its)"

definition paginationObject :: "PaginationMeta \<Rightarrow> jsval" where
  "paginationObject p =
     JObj [(''page'', JNum (page p)), (''limit'', JNum (limit p)),
           (''totalCount'', JNum (totalCount p))]"

definition formatJSONList :: "Env \<Rightarrow> jsval list \<Rightarrow> PaginationMeta \<Rightarrow> string" where
  "formatJSONList env its p =
     stringify env (JObj [(''items'', JArr its), (''pagination'', paginationObject p)])"

section \<open>Output dispatcher (\<^verbatim>\<open>output/index.ts\<close>)\<close>

text \<open>
  The format of the options is a string at run time: \<^verbatim>\<open>resolveFormat\<close> casts whatever
  the flag or the environment holds. An absent \<^verbatim>\<open>detail\<close> or \<^verbatim>\<open>noColor\<close> is false.
\<close>

record OutputOptions =
  format :: string
  oo_fields :: "string list option"
  detail :: bool
  quiet :: bool
  noColor :: bool

text \<open>An element of \<^verbatim>\<open>Array.prototype.join\<close>: null and undefined render empty.\<close>

definition joinElement :: "jsval \<Rightarrow> string" where
  "joinElement v = (if v = JUndefined \<or> v = JNull then [] else js_String v)"

definition formatList ::
  "Env \<Rightarrow> string \<Rightarrow> jsobj list \<Rightarrow> PaginationMeta \<Rightarrow> OutputOptions \<Rightarrow> string" where
  "formatList env resourceType its pag options =
     (let defaultFields = getDefaultFields resourceType;
          fieldSelector = (case oo_fields options of None \<Rightarrow> Fields defaultFields
                           | Some fs \<Rightarrow> Fields fs);
          filtered = map (\<lambda>item. selectFields item fieldSelector) its;
          useFiltered = (oo_fields options \<noteq> None)
      in if format options = ''count'' then formatCompactCount (totalCount pag)
         else if format options = ''id''
           then join [newline] (map (\<lambda>item. joinElement (js_get item ''id'')) its)
         else if format options = ''json''
           then formatJSONList env (map JObj (if useFiltered then filtered else its)) pag
         else if format options = ''jsonl''
           then formatJSONL env (map JObj (if useFiltered then filtered else its))
         else if format options = ''csv''
           then formatCSV (if useFiltered then filtered else its) None
         else if format options = ''tsv''
           then formatTSV (if useFiltered then filtered else its)
         else if format options = ''table''
           then formatTable env filtered
                  (Some \<lparr>to_fields = None, to_noColor = noColor options\<rparr>)
         else formatCompactList resourceType \<lparr>items = filtered, pagination = pag\<rparr>
                (Some \<lparr>co_fields = oo_fields options\<rparr>))"

definition formatItem :: "Env \<Rightarrow> string \<Rightarrow> jsobj \<Rightarrow> OutputOptions \<Rightarrow> string" where
  "formatItem env resourceType data options =
     (let defaultFields = (if detail options then All
                           else case oo_fields options of
                                  None \<Rightarrow> Fields (getDefaultFields resourceType)
                                | Some fs \<Rightarrow> Fields fs);
          filtered = selectFields data defaultFields
      in if format options = ''id''
           then js_String (if js_get data ''id'' = JUndefined \<or> js_get data ''id'' = JNull
                           then JStr [] else js_get data ''id'')
         else if format options = ''json''
           then formatJSON env
                  (if oo_fields options \<noteq> None \<or> detail options then JObj filtered else JObj data)
         else if format options = ''csv'' then formatCSV [filtered] None
         else if format options = ''tsv'' then formatTSV [filtered]
         else if format options = ''table''
           then formatTableItem env resourceType filtered
                  (Some \<lparr>to_fields = None, to_noColor = noColor options\<rparr>)
         else formatCompactItem resourceType filtered None)"

section \<open>Notions used to state the properties\<close>

text \<open>The selector that \<^verbatim>\<open>formatItem\<close> projects with.\<close>

definition itemSelector :: "string \<Rightarrow> OutputOptions \<Rightarrow> FieldSelector" where
  "itemSelector resourceType options =
     (if detail options then All
      else case oo_fields options of None \<Rightarrow> Fields (getDefaultFields resourceType)
           | Some fs \<Rightarrow> Fields fs)"



text \<open>The elements of a list in the order of their first occurrences.\<close>

definition firstOccurrences :: "string list \<Rightarrow> string list" where
  "firstOccurrences xs = rev (remdups (rev xs))"

definition csvDelimiter :: "string option \<Rightarrow> string" where
  "csvDelimiter delim = (case delim of None \<Rightarrow> '','' | Some d \<Rightarrow> d)"

text \<open>A cell that contains the delimiter, a newline or a double quote.\<close>

definition needsQuoting :: "string \<Rightarrow> string \<Rightarrow> bool" where
  "needsQuoting val delimiter =
     (sublist delimiter val \<or> newline \<in> set val \<or> dquote \<in> set val)"

text \<open>A cell wrapped in double quotes, with every double quote inside it doubled.\<close>

definition quoted :: "string \<Rightarrow> string" where
  "quoted val =
     [dquote] @ concat (map (\<lambda>c. if c = dquote then [dquote, dquote] else [c]) val) @ [dquote]"

text \<open>An environment for concrete evaluations: ASCII bar, no styling, \<^verbatim>\<open>String\<close> for JSON.\<close>

definition plainEnv :: Env where
  "plainEnv = \<lparr>hbar = CHR ''-'', bold = (\<lambda>s. s), stringify = js_String\<rparr>"

text \<open>Scalars: every value other than an array, an object or a function.\<close>

definition isScalar :: "jsval \<Rightarrow> bool" where
  "isScalar v =
     (case v of JArr xs \<Rightarrow> False | JObj kvs \<Rightarrow> False | JBuiltin name \<Rightarrow> False | _ \<Rightarrow> True)"

text \<open>Numbers in the range where the decimal rendering is that of \<^verbatim>\<open>String\<close>.\<close>

definition inNumberRange :: "jsval \<Rightarrow> bool" where
  "inNumberRange v = (case v of JNum n \<Rightarrow> \<bar>n\<bar> < 10 ^ 21 | _ \<Rightarrow> True)"

text \<open>A string with a space among its first 80 characters.\<close>

definition spaceInHead :: "jsval \<Rightarrow> bool" where
  "spaceInHead v =
     (case v of JStr s \<Rightarrow> CHR '' '' \<in> set (take MAX_STRING_LENGTH s) | _ \<Rightarrow> False)"

text \<open>Cutting a string longer than \<open>lim\<close> to its first \<open>keep\<close> characters and an ellipsis.\<close>

definition ellipsize :: "nat \<Rightarrow> nat \<Rightarrow> string \<Rightarrow> string" where
  "ellipsize lim keep s = (if length s > lim then take keep s @ ''...'' else s)"

text \<open>
  A string whose end cannot be the end of a next hint for the limit rendered as \<open>L\<close>: it
  ends with a character that is not in \<open>L\<close>, followed by characters other than spaces
  (by none at all when that character is a space).
\<close>

definition safeTail :: "string \<Rightarrow> string \<Rightarrow> bool" where
  "safeTail L s =
     (\<exists>p e w. s = p @ e # w \<and> e \<notin> set L \<and> CHR '' '' \<notin> set w \<and> (e \<noteq> CHR '' '' \<or> w = []))"

text \<open>
  The values that \<^verbatim>\<open>flattenObject\<close> emits: numbers, booleans, strings and functions.
\<close>

fun isFlat :: "jsval \<Rightarrow> bool" where
  "isFlat (JNum n) = True"
| "isFlat (JBool b) = True"
| "isFlat (JStr s) = True"
| "isFlat (JBuiltin name) = True"
| "isFlat v = False"

section \<open>Auxiliary facts\<close>

lemma join_Cons: "join sep (x # xs) = x @ concat (map (\<lambda>y. sep @ y) xs)"
  by (induction xs arbitrary: x) auto

lemma remdups_snoc: "remdups (ys @ [k]) = filter (\<lambda>y. y \<noteq> k) (remdups ys) @ [k]"
  by (induction ys) auto

lemma firstOccurrences_Cons:
  "firstOccurrences (k # xs) = k # firstOccurrences (filter (\<lambda>y. y \<noteq> k) xs)"
  by (simp add: firstOccurrences_def remdups_snoc rev_filter remdups_filter)


lemma pushNew_firstOccurrences:
  "pushNew cols ks = cols @ firstOccurrences (filter (\<lambda>k. k \<notin> set cols) ks)"
proof (induction ks arbitrary: cols)
  case Nil
  then show ?case by (simp add: firstOccurrences_def)
next
  case (Cons k ks)
  show ?case
  proof (cases "k \<in> set cols")
    case True
    then show ?thesis using Cons.IH [of cols] by simp
  next
    case False
    have "filter (\<lambda>x. x \<notin> set (cols @ [k])) ks
            = filter (\<lambda>y. y \<noteq> k) (filter (\<lambda>x. x \<notin> set cols) ks)"
      by (auto intro: filter_cong)
    with False show ?thesis
      using Cons.IH [of "cols @ [k]"] by (simp add: firstOccurrences_Cons)
  qed
qed

lemma pushNew_append: "pushNew cols (ks @ ks') = pushNew (pushNew cols ks) ks'"
  by (induction ks arbitrary: cols) auto

lemma gatherColumns_pushNew:
  "gatherColumns cols its = pushNew cols (concat (map js_keys its))"
  by (induction its arbitrary: cols) (auto simp: pushNew_append)

lemma gatherColumns_firstOccurrences:
  "gatherColumns [] its = firstOccurrences (concat (map js_keys its))"
  by (simp add: gatherColumns_pushNew pushNew_firstOccurrences)

subsection \<open>Rendering of numbers\<close>

lemma digit_char_digit: "digit_char d \<in> set ''0123456789''"
  by (simp add: digit_char_def)

lemma showNat_digits: "set (showNat n) \<subseteq> set ''0123456789''"
proof (induction n rule: showNat.induct)
  case (1 n)
  show ?case
  proof (cases "n < 10")
    case True
    then show ?thesis
      using digit_char_digit [of n] by (subst showNat.simps) simp
  next
    case False
    then show ?thesis
      using 1 digit_char_digit [of "n mod 10"] by (subst showNat.simps) simp
  qed
qed

lemma showNat_nonempty: "showNat n \<noteq> []"
  by (subst showNat.simps) simp


lemma length_showNat: "n < 10 ^ k \<Longrightarrow> 0 < k \<Longrightarrow> length (showNat n) \<le> k"
proof (induction n arbitrary: k rule: showNat.induct)
  case (1 n)
  show ?case
  proof (cases "n < 10")
    case True
    then show ?thesis using 1(3) by (subst showNat.simps) simp
  next
    case False
    obtain j where k: "k = Suc j" using 1(3) by (cases k) auto
    from False 1(2) k have "0 < j" by (cases j) auto
    moreover from 1(2) k have "n div 10 < 10 ^ j"
      by (simp add: less_mult_imp_div_less)
    ultimately have "length (showNat (n div 10)) \<le> j"
      using 1(1) [OF False] by blast
    with False k show ?thesis by (subst showNat.simps) simp
  qed
qed


lemma digits_subset: "set ''0123456789'' \<subseteq> set ''-0123456789''"
  by (rule set_subset_Cons)

lemma showInt_chars: "set (showInt i) \<subseteq> set ''-0123456789''"
proof (cases "i < 0")
  case True
  have "set (showNat (nat (- i))) \<subseteq> set ''-0123456789''"
    using showNat_digits digits_subset by (rule subset_trans)
  with True show ?thesis by (simp add: showInt_def)
next
  case False
  have "set (showNat (nat i)) \<subseteq> set ''-0123456789''"
    using showNat_digits digits_subset by (rule subset_trans)
  with False show ?thesis by (simp add: showInt_def)
qed

lemma showInt_nonempty: "showInt i \<noteq> []"
  by (simp add: showInt_def showNat_nonempty)

lemma length_showInt: "\<bar>i\<bar> < 10 ^ 21 \<Longrightarrow> length (showInt i) \<le> 22"
proof -
  assume b: "\<bar>i\<bar> < 10 ^ 21"
  have "int (nat \<bar>i\<bar>) < int (10 ^ 21)" using b by simp
  then have "nat \<bar>i\<bar> < 10 ^ 21" by (simp only: of_nat_less_iff)
  then have "length (showNat (nat \<bar>i\<bar>)) \<le> 21" by (rule length_showNat) simp
  then show ?thesis by (cases "i < 0") (simp_all add: showInt_def)
qed

subsection \<open>Objects and field selection\<close>






















lemmas obj_defs =
  js_get_def js_in_def js_keys_def js_set_def objectPrototype_def isArrayIndex_def
  indexValue_def digitValue_def

subsection \<open>CSV cells\<close>

lemma str_includes_sublist: "str_includes s t = sublist t s"
proof (induction s)
  case Nil
  then show ?case by simp
next
  case (Cons c cs)
  then show ?case by (simp add: sublist_Cons_right)
qed

lemma str_includes_char: "str_includes s [c] = (c \<in> set s)"
  by (induction s) (auto simp: prefix_Cons)

lemma sublist_single: "sublist [c] (s::string) = (c \<in> set s)"
  using str_includes_sublist [of s "[c]"] by (simp add: str_includes_char)

lemma doubleQuotes_concat:
  "doubleQuotes v = concat (map (\<lambda>c. if c = dquote then [dquote, dquote] else [c]) v)"
  by (induction v) auto

lemma length_doubleQuotes: "length v \<le> length (doubleQuotes v)"
  by (induction v) auto

lemma escapeCell_cases: "escapeCell v d = (if needsQuoting v d then quoted v else v)"
  by (simp add: escapeCell_def needsQuoting_def quoted_def str_includes_sublist
      sublist_single doubleQuotes_concat)

lemma quoted_neq: "quoted v \<noteq> v"
proof
  assume "quoted v = v"
  then have "length (quoted v) = length v" by simp
  moreover have "length (quoted v) = length (doubleQuotes v) + 2"
    by (simp add: quoted_def doubleQuotes_concat)
  ultimately show False using length_doubleQuotes [of v] by simp
qed

section \<open>Properties of field selection\<close>






section \<open>Properties of the CSV and TSV renderer\<close>

text \<open>
  Claim C8. \<^verbatim>\<open>escapeCell\<close> wraps a cell in double quotes, doubling every double quote
  inside it, exactly when the cell contains the delimiter, a newline or a double quote,
  and leaves it unchanged otherwise. For every non-empty list of items (a single row
  included) \<^verbatim>\<open>formatCSV\<close> emits the header row, the escaped column names in first-seen
  order, and then one row for each item. For the item \<^verbatim>\<open>{id: "a", name: "Plan, Pro"}\<close> the
  first line is \<^verbatim>\<open>id,name\<close> and the data line holds the cell \<^verbatim>\<open>"Plan, Pro"\<close> with its quotes.
\<close>

theorem csv_escaping_and_header:
  "(escapeCell v d = quoted v) = needsQuoting v d
   \<and> (escapeCell v d = v) = (\<not> needsQuoting v d)
   \<and> (its \<noteq> [] \<longrightarrow>
        formatCSV its delim =
          join (csvDelimiter delim)
            (map (\<lambda>col. escapeCell col (csvDelimiter delim))
               (firstOccurrences (concat (map js_keys its))))
          @ concat (map (\<lambda>item. newline #
              join (csvDelimiter delim)
                (map (\<lambda>col. escapeCell (csvCellValue (js_get item col)) (csvDelimiter delim))
                   (firstOccurrences (concat (map js_keys its))))) its))
   \<and> formatCSV [[(''id'', JStr ''a''), (''name'', JStr ''Plan, Pro'')]] None
        = ''id,name'' @ [newline] @ ''a,'' @ [dquote] @ ''Plan, Pro'' @ [dquote]"
proof -
  have a: "(escapeCell v d = quoted v) = needsQuoting v d"
    using quoted_neq [of v] by (auto simp: escapeCell_cases)
  have b: "(escapeCell v d = v) = (\<not> needsQuoting v d)"
    using quoted_neq [of v] by (auto simp: escapeCell_cases)
  have c: "its \<noteq> [] \<longrightarrow>
        formatCSV its delim =
          join (csvDelimiter delim)
            (map (\<lambda>col. escapeCell col (csvDelimiter delim))
               (firstOccurrences (concat (map js_keys its))))
          @ concat (map (\<lambda>item. newline #
              join (csvDelimiter delim)
                (map (\<lambda>col. escapeCell (csvCellValue (js_get item col)) (csvDelimiter delim))
                   (firstOccurrences (concat (map js_keys its))))) its)"
    by (simp add: formatCSV_def Let_def join_Cons gatherColumns_firstOccurrences
        csvDelimiter_def comp_def)
  have d: "formatCSV [[(''id'', JStr ''a''), (''name'', JStr ''Plan, Pro'')]] None
        = ''id,name'' @ [newline] @ ''a,'' @ [dquote] @ ''Plan, Pro'' @ [dquote]"
    by (simp add: formatCSV_def Let_def js_keys_def js_get_def escapeCell_def
        iso_pattern_def)
  from a b c d show ?thesis by blast
qed

theorem csv_escaping_and_header_witness:
  "needsQuoting (''say '' @ [dquote] @ ''hi'' @ [dquote]) '',''
   \<and> escapeCell (''say '' @ [dquote] @ ''hi'' @ [dquote]) '','' = [dquote] @ ''say '' @ [dquote, dquote] @ ''hi'' @ [dquote, dquote] @ [dquote]
   \<and> \<not> needsQuoting ''a b'' '',''
   \<and> escapeCell ''a b'' '','' = ''a b''
   \<and> [[(''id'', JStr ''t_1''), (''tab'', JStr [CHR ''x'', CHR 0x09, CHR ''y''])]] \<noteq> []
   \<and> formatCSV [[(''id'', JStr ''t_1''), (''tab'', JStr [CHR ''x'', CHR 0x09, CHR ''y''])]]
         (Some [CHR 0x09])
       = ''id'' @ [CHR 0x09] @ ''tab'' @ [newline] @ ''t_1'' @ [CHR 0x09]
           @ [dquote, CHR ''x'', CHR 0x09, CHR ''y'', dquote]"
proof -
  have n1: "needsQuoting (''say '' @ [dquote] @ ''hi'' @ [dquote]) '',''"
    by (simp add: needsQuoting_def)
  have n2: "\<not> needsQuoting ''a b'' '',''"
    by (simp add: needsQuoting_def sublist_single)
  have q: "quoted (''say '' @ [dquote] @ ''hi'' @ [dquote]) = [dquote] @ ''say '' @ [dquote, dquote] @ ''hi'' @ [dquote, dquote] @ [dquote]"
    by (simp add: quoted_def)
  have ne: "[[(''id'', JStr ''t_1''), (''tab'', JStr [CHR ''x'', CHR 0x09, CHR ''y''])]] \<noteq> []"
    by simp
  note inst = csv_escaping_and_header
    [of _ _ "[[(''id'', JStr ''t_1''), (''tab'', JStr [CHR ''x'', CHR 0x09, CHR ''y''])]]"
        "Some [CHR 0x09]"]
  have e1: "escapeCell (''say '' @ [dquote] @ ''hi'' @ [dquote]) '','' = quoted (''say '' @ [dquote] @ ''hi'' @ [dquote])"
    using csv_escaping_and_header [of "''say '' @ [dquote] @ ''hi'' @ [dquote]" "'',''"] n1 by blast
  have e2: "escapeCell ''a b'' '','' = ''a b''"
    using csv_escaping_and_header [of "''a b''" "'',''"] n2 by blast
  have rows: "formatCSV [[(''id'', JStr ''t_1''), (''tab'', JStr [CHR ''x'', CHR 0x09, CHR ''y''])]]
         (Some [CHR 0x09])
       = ''id'' @ [CHR 0x09] @ ''tab'' @ [newline] @ ''t_1'' @ [CHR 0x09]
           @ [dquote, CHR ''x'', CHR 0x09, CHR ''y'', dquote]"
    using inst ne
    by (simp add: csvDelimiter_def firstOccurrences_def js_keys_def js_get_def
        escapeCell_def iso_pattern_def)
  from n1 n2 e1 e2 q ne rows show ?thesis by simp
qed

section \<open>Empty collections\<close>

text \<open>
  Claim C9. For an empty collection each renderer returns its empty-state string and
  nothing else: the table list renderer returns \<^verbatim>\<open>No results.\<close>, the CSV and TSV renderer
  returns the empty string (no header row), and the compact list renderer, with a total
  count of 0 and no items, returns the plural name followed by \<^verbatim>\<open>0/0\<close>.
\<close>

theorem empty_collections:
  "formatTable env [] topts = ''No results.''
   \<and> formatCSV [] delim = []
   \<and> formatTSV [] = []
   \<and> formatCompactList type \<lparr>items = [], pagination = p\<lparr>totalCount := 0\<rparr>\<rparr> copts
        = type @ '' 0/0''"
  by (simp add: formatTable_def formatCSV_def formatTSV_def formatCompactList_def)

theorem empty_collections_witness:
  "formatTable plainEnv [] None = ''No results.''
   \<and> formatCSV [] None = []
   \<and> formatTSV [] = []
   \<and> formatCompactList ''products''
        \<lparr>items = [], pagination = \<lparr>page = 1, limit = 10, totalCount = 0\<rparr>\<rparr> None
        = ''products 0/0''"
  using empty_collections [of plainEnv None None "''products''"
      "\<lparr>page = 1, limit = 10, totalCount = 0\<rparr>" None]
  by simp

section \<open>Single items in the formats without a branch\<close>

text \<open>
  Claim C10. The switch of \<^verbatim>\<open>formatItem\<close> has no branch for \<^verbatim>\<open>jsonl\<close> or \<^verbatim>\<open>count\<close>: for
  these formats the result is the compact single-item rendering of the projected item,
  which starts with the resource type and a space.
\<close>

theorem formatItem_jsonl_count_compact:
  assumes "format options = ''jsonl'' \<or> format options = ''count''"
  shows "formatItem env resourceType data options
           = formatCompactItem resourceType
               (selectFields data (itemSelector resourceType options)) None
         \<and> prefix (resourceType @ '' '') (formatItem env resourceType data options)"
  using assms by (auto simp add: formatItem_def itemSelector_def formatCompactItem_def Let_def)

theorem formatItem_jsonl_count_compact_witness:
  "format \<lparr>format = ''jsonl'', oo_fields = None, detail = False, quiet = False,
            noColor = False\<rparr> = ''jsonl''
   \<and> formatItem plainEnv ''product''
        [(''id'', JStr ''prod_123''), (''name'', JStr ''Pro Plan''), (''description'', JStr ''Great'')]
        \<lparr>format = ''jsonl'', oo_fields = None, detail = False, quiet = False, noColor = False\<rparr>
      = ''product id=prod_123 name='' @ [dquote] @ ''Pro Plan'' @ [dquote]"
proof -
  let ?o = "\<lparr>format = ''jsonl'', oo_fields = None, detail = False, quiet = False,
              noColor = False\<rparr>"
  have f: "format ?o = ''jsonl'' \<or> format ?o = ''count''" by simp
  have sel: "selectFields
        [(''id'', JStr ''prod_123''), (''name'', JStr ''Pro Plan''), (''description'', JStr ''Great'')]
        (itemSelector ''product'' ?o)
      = [(''id'', JStr ''prod_123''), (''name'', JStr ''Pro Plan'')]"
    by (simp add: itemSelector_def getDefaultFields_def RESOURCE_DEFAULT_FIELDS_def obj_defs)
  have r: "formatCompactItem ''product''
        [(''id'', JStr ''prod_123''), (''name'', JStr ''Pro Plan'')] None
      = ''product id=prod_123 name='' @ [dquote] @ ''Pro Plan'' @ [dquote]"
    by (simp add: formatCompactItem_def compactPairs_def filterFields_def opt_fields_def
        iso_pattern_def MAX_STRING_LENGTH_def)
  show ?thesis
    using formatItem_jsonl_count_compact [OF f, of plainEnv "''product''"
        "[(''id'', JStr ''prod_123''), (''name'', JStr ''Pro Plan''), (''description'', JStr ''Great'')]"]
    by (simp only: sel r) simp
qed

section \<open>Properties of the value normalizers\<close>

subsection \<open>Truncation\<close>

lemma formatValue_long:
  assumes "length s > MAX_STRING_LENGTH"
  shows "formatValue (JStr s) =
           (if CHR '' '' \<in> set (take MAX_STRING_LENGTH s)
            then [dquote] @ take MAX_STRING_LENGTH s @ ''...'' @ [dquote]
            else take MAX_STRING_LENGTH s @ ''...'')"
  using assms by (simp add: Let_def)

lemma length_formatValue_long:
  assumes "length s > MAX_STRING_LENGTH"
  shows "length (formatValue (JStr s)) =
           (if CHR '' '' \<in> set (take MAX_STRING_LENGTH s) then MAX_STRING_LENGTH + 5
            else MAX_STRING_LENGTH + 3)"
  using assms by (simp add: formatValue_long del: formatValue.simps)

lemma formatCellValue_long:
  assumes "length s > MAX_VALUE_LENGTH" and "\<not> isISOTimestamp (JStr s)"
  shows "formatCellValue (JStr s) = take (MAX_VALUE_LENGTH - 3) s @ ''...''"
  using assms by (simp add: Let_def)

text \<open>
  Claim C4, as amended. A string longer than 80 characters is rendered by the compact
  normalizer \<^verbatim>\<open>formatValue\<close> as its first 80 characters followed by \<^verbatim>\<open>...\<close>, 83 characters
  in all, and wrapped in double quotes (85 characters) when those 80 characters contain
  a space. A string longer than 40 characters that does not start with an ISO timestamp
  is rendered by the table cell normalizer \<^verbatim>\<open>formatCellValue\<close> as its first 37 characters
  followed by \<^verbatim>\<open>...\<close>, exactly 40 characters; one that starts with an ISO timestamp is
  rendered as its first 10 characters.
\<close>

theorem truncation_amended:
  "(length s > MAX_STRING_LENGTH \<longrightarrow>
      formatValue (JStr s) =
        (if CHR '' '' \<in> set (take MAX_STRING_LENGTH s)
         then [dquote] @ take MAX_STRING_LENGTH s @ ''...'' @ [dquote]
         else take MAX_STRING_LENGTH s @ ''...'')
      \<and> length (formatValue (JStr s)) =
        (if CHR '' '' \<in> set (take MAX_STRING_LENGTH s) then MAX_STRING_LENGTH + 5
         else MAX_STRING_LENGTH + 3))
   \<and> (length s > MAX_VALUE_LENGTH \<and> \<not> isISOTimestamp (JStr s) \<longrightarrow>
      formatCellValue (JStr s) = take (MAX_VALUE_LENGTH - 3) s @ ''...''
      \<and> length (formatCellValue (JStr s)) = MAX_VALUE_LENGTH)
   \<and> (isISOTimestamp (JStr s) \<longrightarrow> formatCellValue (JStr s) = take 10 s)"
proof (intro conjI impI)
  assume "length s > MAX_STRING_LENGTH"
  then show "formatValue (JStr s) =
        (if CHR '' '' \<in> set (take MAX_STRING_LENGTH s)
         then [dquote] @ take MAX_STRING_LENGTH s @ ''...'' @ [dquote]
         else take MAX_STRING_LENGTH s @ ''...'')"
    by (rule formatValue_long)
next
  assume "length s > MAX_STRING_LENGTH"
  then show "length (formatValue (JStr s)) =
        (if CHR '' '' \<in> set (take MAX_STRING_LENGTH s) then MAX_STRING_LENGTH + 5
         else MAX_STRING_LENGTH + 3)"
    by (rule length_formatValue_long)
next
  assume a: "length s > MAX_VALUE_LENGTH \<and> \<not> isISOTimestamp (JStr s)"
  then show "formatCellValue (JStr s) = take (MAX_VALUE_LENGTH - 3) s @ ''...''"
    by (simp add: formatCellValue_long del: formatCellValue.simps)
next
  assume a: "length s > MAX_VALUE_LENGTH \<and> \<not> isISOTimestamp (JStr s)"
  then have "formatCellValue (JStr s) = take (MAX_VALUE_LENGTH - 3) s @ ''...''"
    by (simp add: formatCellValue_long del: formatCellValue.simps)
  with a show "length (formatCellValue (JStr s)) = MAX_VALUE_LENGTH"
    by (simp add: MAX_VALUE_LENGTH_def del: formatCellValue.simps)
next
  assume "isISOTimestamp (JStr s)"
  then show "formatCellValue (JStr s) = take 10 s"
    by (simp add: compressTimestamp_def)
qed

theorem truncation_amended_witness:
  "length (replicate 81 CHR ''A'') > MAX_STRING_LENGTH
   \<and> formatValue (JStr (replicate 81 CHR ''A'')) = replicate 80 CHR ''A'' @ ''...''
   \<and> length (formatValue (JStr (replicate 81 CHR ''A''))) = 83
   \<and> length (replicate 41 CHR ''B'') > MAX_VALUE_LENGTH
   \<and> \<not> isISOTimestamp (JStr (replicate 41 CHR ''B''))
   \<and> formatCellValue (JStr (replicate 41 CHR ''B'')) = replicate 37 CHR ''B'' @ ''...''
   \<and> length (formatCellValue (JStr (replicate 41 CHR ''B''))) = 40
   \<and> isISOTimestamp (JStr ''2024-01-15T10:30:00.000Z and a note that is longer than forty'')
   \<and> formatCellValue (JStr ''2024-01-15T10:30:00.000Z and a note that is longer than forty'')
       = ''2024-01-15''"
proof -
  have l: "length (replicate 81 CHR ''A'') > MAX_STRING_LENGTH"
    by (simp add: MAX_STRING_LENGTH_def)
  have ns: "CHR '' '' \<notin> set (take MAX_STRING_LENGTH (replicate 81 CHR ''A''))"
    by (simp add: MAX_STRING_LENGTH_def)
  have t: "take MAX_STRING_LENGTH (replicate 81 CHR ''A'') = replicate 80 CHR ''A''"
    by (simp add: MAX_STRING_LENGTH_def)
  have l2: "length (replicate 41 CHR ''B'') > MAX_VALUE_LENGTH"
    by (simp add: MAX_VALUE_LENGTH_def)
  have ni: "\<not> isISOTimestamp (JStr (replicate 41 CHR ''B''))"
    by (simp add: iso_pattern_def numeral_eq_Suc)
  have t2: "take (MAX_VALUE_LENGTH - 3) (replicate 41 CHR ''B'') = replicate 37 CHR ''B''"
    by (simp add: MAX_VALUE_LENGTH_def)
  have iso: "isISOTimestamp (JStr ''2024-01-15T10:30:00.000Z and a note that is longer than forty'')"
    by (simp add: iso_pattern_def)
  have a: "formatValue (JStr (replicate 81 CHR ''A'')) = replicate 80 CHR ''A'' @ ''...''
        \<and> length (formatValue (JStr (replicate 81 CHR ''A''))) = 83"
    using truncation_amended [of "replicate 81 CHR ''A''"] l ns t
    by (simp add: MAX_STRING_LENGTH_def del: formatValue.simps)
  have b: "formatCellValue (JStr (replicate 41 CHR ''B'')) = replicate 37 CHR ''B'' @ ''...''
        \<and> length (formatCellValue (JStr (replicate 41 CHR ''B''))) = 40"
    using truncation_amended [of "replicate 41 CHR ''B''"] l2 ni t2
    by (simp add: MAX_VALUE_LENGTH_def del: formatCellValue.simps isISOTimestamp.simps)
  have c: "formatCellValue (JStr ''2024-01-15T10:30:00.000Z and a note that is longer than forty'')
       = ''2024-01-15''"
    using truncation_amended [of "''2024-01-15T10:30:00.000Z and a note that is longer than forty''"] iso
    by (simp del: formatCellValue.simps isISOTimestamp.simps)
  from l l2 ni iso a b c show ?thesis
    by (simp del: formatValue.simps formatCellValue.simps isISOTimestamp.simps)
qed

text \<open>
  The claim as stated fails for the compact normalizer: a string of 81 characters is not
  rendered as its first 77 characters and \<^verbatim>\<open>...\<close>, and its rendering is not 80 characters
  long.
\<close>

theorem truncation_counterexample:
  "formatValue (JStr (replicate 81 CHR ''A''))
     \<noteq> take (MAX_STRING_LENGTH - 3) (replicate 81 CHR ''A'') @ ''...''
   \<and> length (formatValue (JStr (replicate 81 CHR ''A''))) \<noteq> MAX_STRING_LENGTH"
proof -
  have l: "length (replicate 81 CHR ''A'') > MAX_STRING_LENGTH"
    by (simp add: MAX_STRING_LENGTH_def)
  have len: "length (formatValue (JStr (replicate 81 CHR ''A''))) = MAX_STRING_LENGTH + 3"
    using length_formatValue_long [OF l]
    by (simp add: MAX_STRING_LENGTH_def del: formatValue.simps)
  have "length (take (MAX_STRING_LENGTH - 3) (replicate 81 CHR ''A'') @ ''...'') = MAX_STRING_LENGTH"
    by (simp add: MAX_STRING_LENGTH_def)
  with len have "formatValue (JStr (replicate 81 CHR ''A''))
     \<noteq> take (MAX_STRING_LENGTH - 3) (replicate 81 CHR ''A'') @ ''...''"
    by (metis add_eq_self_zero zero_neq_numeral)
  with len show ?thesis by (simp del: formatValue.simps)
qed

subsection \<open>Idempotence\<close>

lemma matches_prefix_length: "matches_prefix ps s \<Longrightarrow> length ps \<le> length s"
  by (induction ps s rule: matches_prefix.induct) auto

lemma matches_prefix_nth:
  "matches_prefix ps s \<Longrightarrow> i < length ps \<Longrightarrow> cclass_ok (ps ! i) (s ! i)"
proof (induction ps s arbitrary: i rule: matches_prefix.induct)
  case (3 p ps c cs)
  then show ?case by (cases i) auto
qed auto

lemma matches_prefix_append:
  "length ps \<le> length s \<Longrightarrow> matches_prefix ps (s @ t) = matches_prefix ps s"
  by (induction ps s rule: matches_prefix.induct) auto

lemma matches_prefix_take:
  "length ps \<le> n \<Longrightarrow> matches_prefix ps (take n s) = matches_prefix ps s"
proof (induction ps s arbitrary: n rule: matches_prefix.induct)
  case (3 p ps c cs)
  then show ?case by (cases n) auto
qed auto

lemma length_iso_pattern: "length iso_pattern = 19"
  by (simp add: iso_pattern_def)

lemma iso_short: "length s < 19 \<Longrightarrow> \<not> isISOTimestamp (JStr s)"
  using matches_prefix_length [of iso_pattern s] by (auto simp: length_iso_pattern)

lemma iso_ellipsize:
  "isISOTimestamp (JStr (ellipsize MAX_VALUE_LENGTH (MAX_VALUE_LENGTH - 3) s))
     = isISOTimestamp (JStr s)"
proof (cases "length s > MAX_VALUE_LENGTH")
  case True
  then have "length iso_pattern \<le> length (take (MAX_VALUE_LENGTH - 3) s)"
    by (simp add: length_iso_pattern MAX_VALUE_LENGTH_def)
  then have "matches_prefix iso_pattern (take (MAX_VALUE_LENGTH - 3) s @ ''...'')
               = matches_prefix iso_pattern (take (MAX_VALUE_LENGTH - 3) s)"
    by (rule matches_prefix_append)
  also have "\<dots> = matches_prefix iso_pattern s"
    by (rule matches_prefix_take) (simp add: length_iso_pattern MAX_VALUE_LENGTH_def)
  finally show ?thesis using True by (simp add: ellipsize_def)
next
  case False
  then show ?thesis by (simp add: ellipsize_def)
qed

lemma ellipsize_idem: "keep + 3 \<le> lim \<Longrightarrow> ellipsize lim keep (ellipsize lim keep s) = ellipsize lim keep s"
  by (simp add: ellipsize_def)

lemma formatCellValue_string:
  "formatCellValue (JStr s) =
     (if isISOTimestamp (JStr s) then take 10 s
      else ellipsize MAX_VALUE_LENGTH (MAX_VALUE_LENGTH - 3) s)"
  by (simp add: ellipsize_def compressTimestamp_def Let_def)

lemma formatCellValue_ellipsized:
  assumes "\<not> isISOTimestamp (JStr s)"
  shows "formatCellValue (JStr (ellipsize MAX_VALUE_LENGTH (MAX_VALUE_LENGTH - 3) s))
           = ellipsize MAX_VALUE_LENGTH (MAX_VALUE_LENGTH - 3) s"
proof -
  have "\<not> isISOTimestamp (JStr (ellipsize MAX_VALUE_LENGTH (MAX_VALUE_LENGTH - 3) s))"
    using assms by (simp add: iso_ellipsize del: isISOTimestamp.simps)
  then show ?thesis
    by (simp add: formatCellValue_string ellipsize_idem MAX_VALUE_LENGTH_def
        del: formatCellValue.simps isISOTimestamp.simps)
qed

lemma formatCellValue_string_idem:
  "formatCellValue (JStr (formatCellValue (JStr s))) = formatCellValue (JStr s)"
proof (cases "isISOTimestamp (JStr s)")
  case True
  have "\<not> isISOTimestamp (JStr (take 10 s))" by (rule iso_short) simp
  moreover have "ellipsize MAX_VALUE_LENGTH (MAX_VALUE_LENGTH - 3) (take 10 s) = take 10 s"
    by (simp add: ellipsize_def MAX_VALUE_LENGTH_def)
  ultimately show ?thesis using True by (simp only: formatCellValue_string if_True if_False)
next
  case False
  then have "formatCellValue (JStr s) = ellipsize MAX_VALUE_LENGTH (MAX_VALUE_LENGTH - 3) s"
    by (simp add: formatCellValue_string del: formatCellValue.simps isISOTimestamp.simps)
  with False show ?thesis
    by (simp add: formatCellValue_ellipsized del: formatCellValue.simps isISOTimestamp.simps)
qed

lemma showInt_not_iso: "\<not> isISOTimestamp (JStr (showInt n))"
proof
  assume "isISOTimestamp (JStr (showInt n))"
  then have m: "matches_prefix iso_pattern (showInt n)" by simp
  have len: "19 \<le> length (showInt n)"
    using matches_prefix_length [OF m] by (simp add: length_iso_pattern)
  have a: "showInt n ! 0 \<in> set ''0123456789''"
    using matches_prefix_nth [OF m, of 0] by (simp add: iso_pattern_def)
  have b: "showInt n ! 4 = CHR ''-''"
    using matches_prefix_nth [OF m, of 4] by (simp add: iso_pattern_def)
  show False
  proof (cases "n < 0")
    case True
    then have "showInt n ! 0 = CHR ''-''" by (simp add: showInt_def)
    with a show False by simp
  next
    case False
    then have eq: "showInt n = showNat (nat n)" by (simp add: showInt_def)
    have "showNat (nat n) ! 4 \<in> set (showNat (nat n))"
      using len by (simp add: eq)
    then have "showNat (nat n) ! 4 \<in> set ''0123456789''"
      using showNat_digits by blast
    with b show False by (simp add: eq)
  qed
qed

lemma formatCellValue_scalar_idem:
  assumes "isScalar v"
  shows "formatCellValue (JStr (formatCellValue v)) = formatCellValue v"
proof (cases v)
  case JUndefined
  then show ?thesis by (simp add: iso_pattern_def MAX_VALUE_LENGTH_def)
next
  case JNull
  then show ?thesis by (simp add: iso_pattern_def MAX_VALUE_LENGTH_def)
next
  case (JBool b)
  then show ?thesis by (cases b) (simp_all add: iso_pattern_def MAX_VALUE_LENGTH_def)
next
  case (JNum n)
  have "formatCellValue (JNum n) = ellipsize MAX_VALUE_LENGTH (MAX_VALUE_LENGTH - 3) (showInt n)"
    by (simp add: ellipsize_def Let_def)
  then show ?thesis
    using formatCellValue_ellipsized [OF showInt_not_iso [of n]] JNum by simp
next
  case (JStr s)
  then show ?thesis by (simp only: formatCellValue_string_idem)
next
  case (JArr xs)
  with assms show ?thesis by (simp add: isScalar_def)
next
  case (JObj kvs)
  with assms show ?thesis by (simp add: isScalar_def)
next
  case (JBuiltin name)
  with assms show ?thesis by (simp add: isScalar_def)
qed


lemma formatValue_string:
  "formatValue (JStr s) =
     (if CHR '' '' \<in> set (take MAX_STRING_LENGTH s)
      then [dquote] @ ellipsize MAX_STRING_LENGTH MAX_STRING_LENGTH s @ [dquote]
      else ellipsize MAX_STRING_LENGTH MAX_STRING_LENGTH s)"
  by (simp add: ellipsize_def Let_def)

lemma take_ellipsize:
  "take MAX_STRING_LENGTH (ellipsize MAX_STRING_LENGTH MAX_STRING_LENGTH s)
     = take MAX_STRING_LENGTH s"
  by (simp add: ellipsize_def)

lemma ellipsize_ellipsize:
  "ellipsize MAX_STRING_LENGTH MAX_STRING_LENGTH (ellipsize MAX_STRING_LENGTH MAX_STRING_LENGTH s)
     = ellipsize MAX_STRING_LENGTH MAX_STRING_LENGTH s"
  by (simp add: ellipsize_def)

lemma length_ellipsize_cases:
  "length (ellipsize MAX_STRING_LENGTH MAX_STRING_LENGTH s) \<le> MAX_STRING_LENGTH
   \<or> length (ellipsize MAX_STRING_LENGTH MAX_STRING_LENGTH s) = MAX_STRING_LENGTH + 3"
  by (simp add: ellipsize_def)

lemma formatValue_string_idem:
  assumes "CHR '' '' \<notin> set (take MAX_STRING_LENGTH s)"
  shows "formatValue (JStr (formatValue (JStr s))) = formatValue (JStr s)"
proof -
  have 1: "formatValue (JStr s) = ellipsize MAX_STRING_LENGTH MAX_STRING_LENGTH s"
    using assms by (simp add: formatValue_string del: formatValue.simps)
  show ?thesis
    using assms
    by (simp add: 1 formatValue_string take_ellipsize ellipsize_ellipsize
        del: formatValue.simps)
qed

lemma take_shift_constant:
  "c # take n s = take (Suc n) s \<Longrightarrow> set (take (Suc n) s) \<subseteq> {c}"
proof (induction n arbitrary: s c)
  case 0
  then show ?case by (cases s) auto
next
  case (Suc m)
  then obtain x s' where s: "s = x # s'" by (cases s) auto
  from Suc.prems s have cx: "c = x" and shift: "x # take m s' = take (Suc m) s'"
    by simp_all
  from Suc.IH [OF shift] have "set (take (Suc m) s') \<subseteq> {x}" .
  then show ?case using s cx by (simp add: shift [symmetric])
qed

lemma formatValue_string_not_idem:
  assumes sp: "CHR '' '' \<in> set (take MAX_STRING_LENGTH s)"
  shows "formatValue (JStr (formatValue (JStr s))) \<noteq> formatValue (JStr s)"
proof -
  let ?M = "MAX_STRING_LENGTH"
  let ?t = "ellipsize ?M ?M s"
  let ?q = "dquote # ?t @ [dquote]"
  have fq: "formatValue (JStr s) = ?q"
    using sp by (simp add: formatValue_string del: formatValue.simps)
  have lq: "length ?q = length ?t + 2" by simp
  have sp_t: "CHR '' '' \<in> set ?t"
    using sp by (auto simp: ellipsize_def dest: in_set_takeD)
  show ?thesis
  proof (cases "length ?q > ?M")
    case False
    then have "take ?M ?q = ?q" by simp
    moreover have "ellipsize ?M ?M ?q = ?q" using False by (simp add: ellipsize_def)
    ultimately have "formatValue (JStr ?q) = dquote # ?q @ [dquote]"
      using sp_t by (simp add: formatValue_string del: formatValue.simps)
    then have "length (formatValue (JStr ?q)) \<noteq> length ?q" by simp
    then show ?thesis unfolding fq by metis
  next
    case True
    then have eq: "ellipsize ?M ?M ?q = take ?M ?q @ ''...''"
      by (simp add: ellipsize_def)
    have l80: "length (take ?M ?q) = ?M" using True by simp
    show ?thesis
    proof (cases "CHR '' '' \<in> set (take ?M ?q)")
      case False
      then have "formatValue (JStr ?q) = take ?M ?q @ ''...''"
        by (simp add: formatValue_string eq del: formatValue.simps)
      then have "length (formatValue (JStr ?q)) = ?M + 3"
        using l80 by simp
      moreover have "length ?q \<noteq> ?M + 3"
        using length_ellipsize_cases [of s] by auto
      ultimately show ?thesis unfolding fq by metis
    next
      case sq: True
      then have r: "formatValue (JStr ?q) = dquote # take ?M ?q @ ''...'' @ [dquote]"
        by (simp add: formatValue_string eq del: formatValue.simps)
      show ?thesis
      proof (cases "length s > ?M")
        case False
        then have "length ?q \<le> ?M + 2" by (simp add: ellipsize_def)
        moreover have "length (formatValue (JStr ?q)) = ?M + 5"
          using l80 by (simp add: r del: formatValue.simps)
        ultimately have "length (formatValue (JStr ?q)) \<noteq> length ?q" by linarith
        then show ?thesis unfolding fq by metis
      next
        case long: True
        then have t: "?t = take ?M s @ ''...''" by (simp add: ellipsize_def)
        have Mpos: "?M = Suc (?M - 1)" by (simp add: MAX_STRING_LENGTH_def)
        have tq: "take ?M ?q = dquote # take (?M - 1) s"
        proof -
          have "take ?M ?q = dquote # take (?M - 1) (?t @ [dquote])"
            by (subst Mpos) simp
          also have "take (?M - 1) (?t @ [dquote]) = take (?M - 1) s"
            using long by (simp add: t)
          finally show ?thesis .
        qed
        show ?thesis
        proof
          assume "formatValue (JStr (formatValue (JStr s))) = formatValue (JStr s)"
          then have e1: "formatValue (JStr ?q) = ?q" by (simp only: fq)
          have "dquote # take ?M ?q @ ''...'' @ [dquote] = ?q"
            by (rule trans [OF r [symmetric] e1])
          then have "take ?M ?q @ ''...'' = ?t" by simp
          then have "take ?M ?q @ ''...'' = take ?M s @ ''...''"
            using t by (rule trans)
          then have "take ?M ?q = take ?M s" by simp
          then have "dquote # take (?M - 1) s = take (Suc (?M - 1)) s"
            using tq Mpos by simp
          then have "set (take (Suc (?M - 1)) s) \<subseteq> {dquote}"
            by (rule take_shift_constant)
          then have "set (take ?M s) \<subseteq> {dquote}" using Mpos by simp
          with sp show False by auto
        qed
      qed
    qed
  qed
qed

lemma formatValue_scalar_idem_iff:
  assumes "isScalar v" and "inNumberRange v"
  shows "(formatValue (JStr (formatValue v)) = formatValue v) = (\<not> spaceInHead v)"
proof (cases v)
  case JUndefined
  then show ?thesis by (simp add: spaceInHead_def MAX_STRING_LENGTH_def)
next
  case JNull
  then show ?thesis by (simp add: spaceInHead_def MAX_STRING_LENGTH_def)
next
  case (JBool b)
  then show ?thesis by (cases b) (simp_all add: spaceInHead_def MAX_STRING_LENGTH_def)
next
  case (JNum n)
  with assms(2) have "length (showInt n) \<le> 22"
    by (simp add: inNumberRange_def length_showInt)
  then have e: "ellipsize MAX_STRING_LENGTH MAX_STRING_LENGTH (showInt n) = showInt n"
    by (simp add: ellipsize_def MAX_STRING_LENGTH_def)
  have "CHR '' '' \<notin> set (showInt n)"
    using showInt_chars [of n] by auto
  then have "CHR '' '' \<notin> set (take MAX_STRING_LENGTH (showInt n))"
    by (auto dest: in_set_takeD)
  then have "formatValue (JStr (showInt n)) = showInt n"
    by (simp add: formatValue_string e del: formatValue.simps)
  with JNum show ?thesis by (simp add: spaceInHead_def del: formatValue.simps(1))
next
  case (JStr s)
  show ?thesis
  proof (cases "CHR '' '' \<in> set (take MAX_STRING_LENGTH s)")
    case True
    then show ?thesis
      using formatValue_string_not_idem [OF True] JStr by (simp add: spaceInHead_def)
  next
    case False
    then show ?thesis
      using formatValue_string_idem [OF False] JStr by (simp add: spaceInHead_def)
  qed
next
  case (JArr xs)
  with assms show ?thesis by (simp add: isScalar_def)
next
  case (JObj kvs)
  with assms show ?thesis by (simp add: isScalar_def)
next
  case (JBuiltin name)
  with assms show ?thesis by (simp add: isScalar_def)
qed

text \<open>
  Claim C5, as amended. The table cell normalizer is idempotent on every scalar:
  \<^verbatim>\<open>formatCellValue(formatCellValue(v)) = formatCellValue(v)\<close>. The compact normalizer
  \<^verbatim>\<open>formatValue\<close> is idempotent on a scalar exactly when the scalar is not a string with
  a space among its first 80 characters: such a string is rendered in double quotes, and
  a second pass does not give the quoted text back.
\<close>

theorem normalization_idempotence:
  "(isScalar v \<longrightarrow> formatCellValue (JStr (formatCellValue v)) = formatCellValue v)
   \<and> (isScalar v \<and> inNumberRange v \<longrightarrow>
        (formatValue (JStr (formatValue v)) = formatValue v) = (\<not> spaceInHead v))"
  using formatCellValue_scalar_idem [of v] formatValue_scalar_idem_iff [of v]
  by blast

theorem normalization_idempotence_witness:
  "isScalar (JStr ''Starter'') \<and> inNumberRange (JStr ''Starter'')
   \<and> \<not> spaceInHead (JStr ''Starter'')
   \<and> formatValue (JStr (formatValue (JStr ''Starter''))) = formatValue (JStr ''Starter'')
   \<and> formatCellValue (JStr (formatCellValue (JStr ''2024-01-15T10:30:00.000Z'')))
       = formatCellValue (JStr ''2024-01-15T10:30:00.000Z'')
   \<and> isScalar (JNum 2999) \<and> inNumberRange (JNum 2999) \<and> \<not> spaceInHead (JNum 2999)
   \<and> formatValue (JStr (formatValue (JNum 2999))) = formatValue (JNum 2999)"
proof -
  have a: "isScalar (JStr ''Starter'') \<and> inNumberRange (JStr ''Starter'')
           \<and> \<not> spaceInHead (JStr ''Starter'')"
    by (simp add: isScalar_def inNumberRange_def spaceInHead_def MAX_STRING_LENGTH_def)
  have b: "isScalar (JStr ''2024-01-15T10:30:00.000Z'')"
    by (simp add: isScalar_def)
  have c: "isScalar (JNum 2999) \<and> inNumberRange (JNum 2999) \<and> \<not> spaceInHead (JNum 2999)"
    by (simp add: isScalar_def inNumberRange_def spaceInHead_def)
  show ?thesis
    using normalization_idempotence [of "JStr ''Starter''"] a
      normalization_idempotence [of "JStr ''2024-01-15T10:30:00.000Z''"] b
      normalization_idempotence [of "JNum 2999"] c
    by blast
qed

text \<open>
  The claim as stated fails for the compact normalizer: \<^verbatim>\<open>a b\<close> is rendered in double
  quotes, and the quoted text is quoted once more by a second pass.
\<close>

theorem normalization_idempotence_counterexample:
  "formatValue (JStr (formatValue (JStr ''a b''))) \<noteq> formatValue (JStr ''a b'')"
  by (simp add: MAX_STRING_LENGTH_def)

section \<open>Properties of the dispatcher\<close>

lemmas eval_defs =
  formatList_def formatItem_def formatCompactList_def formatCompactItem_def compactHeader_def
  compactLine_def compactPairs_def filterFields_def opt_fields_def nextHint_def rangeStart_def
  rangeEnd_def showInt_def showNat.simps digit_char_def obj_defs
  getDefaultFields_def RESOURCE_DEFAULT_FIELDS_def iso_pattern_def MAX_STRING_LENGTH_def
  formatCSV_def formatTSV_def escapeCell_def Let_def plainEnv_def




text \<open>
  Claim C3. With an explicit field list, \<^verbatim>\<open>formatList\<close> projects every item and then hands
  the same list to \<^verbatim>\<open>formatCompactList\<close>, which filters the flattened entries by their
  dotted names once more. The leaves of a nested object have dotted names that the list
  does not hold, so they are dropped from the line: for the fields \<^verbatim>\<open>id,customer\<close> and an
  item whose \<^verbatim>\<open>customer\<close> is an object, the line is \<^verbatim>\<open>[1] id=sub_1\<close>, and not the pairs of the
  flattened projected item, \<^verbatim>\<open>id=sub_1 customer.id=cust_1 customer.email=a@b.c\<close>.
  \<^verbatim>\<open>formatItem\<close>, with the same item and options, keeps the leaves.
\<close>

theorem compact_list_drops_nested_fields:
  "formatList plainEnv ''subscriptions''
      [[(''id'', JStr ''sub_1''),
        (''customer'', JObj [(''id'', JStr ''cust_1''), (''email'', JStr ''a@b.c'')])]]
      \<lparr>page = 1, limit = 10, totalCount = 1\<rparr>
      \<lparr>format = ''compact'', oo_fields = Some [''id'', ''customer''], detail = False,
       quiet = False, noColor = False\<rparr>
     = ''subscriptions 1-1/1 page=1'' @ [newline] @ ''  [1] id=sub_1''
   \<and> join '' '' (map (\<lambda>(k, v). k @ ''='' @ formatValue v)
        (flattenObject
           (selectFields
              [(''id'', JStr ''sub_1''),
               (''customer'', JObj [(''id'', JStr ''cust_1''), (''email'', JStr ''a@b.c'')])]
              (Fields [''id'', ''customer''])) []))
     = ''id=sub_1 customer.id=cust_1 customer.email=a@b.c''
   \<and> formatItem plainEnv ''subscription''
      [(''id'', JStr ''sub_1''),
       (''customer'', JObj [(''id'', JStr ''cust_1''), (''email'', JStr ''a@b.c'')])]
      \<lparr>format = ''compact'', oo_fields = Some [''id'', ''customer''], detail = False,
       quiet = False, noColor = False\<rparr>
     = ''subscription id=sub_1 customer.id=cust_1 customer.email=a@b.c''"
  by (simp add: eval_defs)

theorem compact_list_drops_nested_fields_witness:
  "\<not> str_includes
      (formatList plainEnv ''subscriptions''
         [[(''id'', JStr ''sub_1''),
           (''customer'', JObj [(''id'', JStr ''cust_1''), (''email'', JStr ''a@b.c'')])]]
         \<lparr>page = 1, limit = 10, totalCount = 1\<rparr>
         \<lparr>format = ''compact'', oo_fields = Some [''id'', ''customer''], detail = False,
          quiet = False, noColor = False\<rparr>)
      ''customer.email''
   \<and> str_includes
      (formatItem plainEnv ''subscription''
         [(''id'', JStr ''sub_1''),
          (''customer'', JObj [(''id'', JStr ''cust_1''), (''email'', JStr ''a@b.c'')])]
         \<lparr>format = ''compact'', oo_fields = Some [''id'', ''customer''], detail = False,
          quiet = False, noColor = False\<rparr>)
      ''customer.email''"
proof -
  have a: "\<not> str_includes (''subscriptions 1-1/1 page=1'' @ [newline] @ ''  [1] id=sub_1'')
              ''customer.email''"
    by simp
  have b: "str_includes ''subscription id=sub_1 customer.id=cust_1 customer.email=a@b.c''
              ''customer.email''"
    by simp
  from a b show ?thesis
    by (simp only: compact_list_drops_nested_fields simp_thms)
qed

section \<open>Properties of the compact list renderer\<close>

lemma safeTail_no_suffix:
  assumes st: "safeTail L s" and ne: "L \<noteq> []" and ns: "CHR '' '' \<notin> set L"
  shows "\<not> suffix (x @ CHR '' '' # L) s"
proof
  assume "suffix (x @ CHR '' '' # L) s"
  then have sl: "suffix (CHR '' '' # L) s" by (rule suffix_appendD)
  from st obtain p e w where s: "s = p @ e # w" and e: "e \<notin> set L"
    and w: "CHR '' '' \<notin> set w" and ew: "e \<noteq> CHR '' '' \<or> w = []"
    by (auto simp: safeTail_def)
  have sw: "suffix (e # w) s" by (simp add: s suffix_def)
  from sl sw have "suffix (CHR '' '' # L) (e # w) \<or> suffix (e # w) (CHR '' '' # L)"
    by (rule suffix_same_cases)
  then show False
  proof
    assume "suffix (CHR '' '' # L) (e # w)"
    then have "CHR '' '' # L = e # w \<or> suffix (CHR '' '' # L) w"
      by (simp add: suffix_Cons)
    then show False
    proof
      assume "CHR '' '' # L = e # w"
      with ew ne show False by auto
    next
      assume "suffix (CHR '' '' # L) w"
      then have "set (CHR '' '' # L) \<subseteq> set w" by (rule set_mono_suffix)
      with w show False by simp
    qed
  next
    assume "suffix (e # w) (CHR '' '' # L)"
    then have "e # w = CHR '' '' # L \<or> suffix (e # w) L"
      by (simp add: suffix_Cons)
    then show False
    proof
      assume "e # w = CHR '' '' # L"
      with ew ne show False by auto
    next
      assume "suffix (e # w) L"
      then have "set (e # w) \<subseteq> set L" by (rule set_mono_suffix)
      with e show False by simp
    qed
  qed
qed

lemma safeTail_prepend: "safeTail L s \<Longrightarrow> safeTail L (q @ s)"
proof -
  assume "safeTail L s"
  then obtain p e w where "s = p @ e # w" and "e \<notin> set L"
    and "CHR '' '' \<notin> set w" and "e \<noteq> CHR '' '' \<or> w = []"
    by (auto simp: safeTail_def)
  then have "q @ s = (q @ p) @ e # w \<and> e \<notin> set L \<and> CHR '' '' \<notin> set w
      \<and> (e \<noteq> CHR '' '' \<or> w = [])"
    by simp
  then show ?thesis unfolding safeTail_def by blast
qed

lemma safeTail_intro:
  "e \<notin> set L \<Longrightarrow> CHR '' '' \<notin> set w \<Longrightarrow> e \<noteq> CHR '' '' \<or> w = [] \<Longrightarrow> safeTail L (p @ e # w)"
  unfolding safeTail_def by blast

lemma flattenObject_flat: "list_all (\<lambda>(k, v). isFlat v) (flattenObject obj pre)"
proof (induction obj pre rule: flattenObject.induct)
  case (1 pre)
  then show ?case by simp
next
  case (2 key val rest pre)
  then show ?case
    by (cases val) (simp_all add: Let_def)
qed


lemma showNat_no_char:
  "c \<notin> set ''0123456789'' \<Longrightarrow> c \<notin> set (showNat n)"
  using showNat_digits [of n] by blast

lemma showInt_no_char:
  "c \<notin> set ''-0123456789'' \<Longrightarrow> c \<notin> set (showInt n)"
  using showInt_chars [of n] by blast

lemma showInt_no_space: "CHR '' '' \<notin> set (showInt n)"
  by (rule showInt_no_char) simp

lemma showInt_no_equals: "CHR ''='' \<notin> set (showInt n)"
  by (rule showInt_no_char) simp

lemma showInt_no_dquote: "dquote \<notin> set (showInt n)"
  by (rule showInt_no_char) simp

lemma showInt_no_brace: "CHR ''}'' \<notin> set (showInt n)"
  by (rule showInt_no_char) simp

lemma formatValue_tail:
  assumes "isFlat v"
  shows "CHR '' '' \<notin> set (formatValue v) \<or> (\<exists>u. formatValue v = u @ [dquote])
         \<or> (\<exists>u. formatValue v = u @ ''}'')"
proof (cases v)
  case (JBuiltin name)
  have "formatValue (JBuiltin name)
      = (''function '' @ name @ ''() {'' @ [newline] @ ''    [native code]'' @ [newline]) @ ''}''"
    by simp
  then show ?thesis using JBuiltin by blast
next
  case (JBool b)
  then show ?thesis by (cases b) simp_all
next
  case (JNum n)
  then show ?thesis by (simp add: showInt_no_space)
next
  case (JStr s)
  show ?thesis
  proof (cases "CHR '' '' \<in> set (take MAX_STRING_LENGTH s)")
    case True
    then have "formatValue (JStr s)
        = (dquote # ellipsize MAX_STRING_LENGTH MAX_STRING_LENGTH s) @ [dquote]"
      by (simp add: formatValue_string del: formatValue.simps)
    then show ?thesis using JStr by blast
  next
    case False
    then have "CHR '' '' \<notin> set (ellipsize MAX_STRING_LENGTH MAX_STRING_LENGTH s)"
      by (auto simp: ellipsize_def)
    with False show ?thesis
      using JStr by (simp add: formatValue_string del: formatValue.simps)
  qed
qed (use assms in simp_all)

lemma pair_safeTail:
  assumes "isFlat v" and "CHR ''='' \<notin> set L" and "dquote \<notin> set L"
    and "CHR ''}'' \<notin> set L"
  shows "safeTail L (k @ ''='' @ formatValue v)"
proof -
  from formatValue_tail [OF assms(1)] show ?thesis
  proof (elim disjE)
    assume "CHR '' '' \<notin> set (formatValue v)"
    with assms(2) have "safeTail L (k @ CHR ''='' # formatValue v)"
      by (intro safeTail_intro) simp_all
    then show ?thesis by simp
  next
    assume "\<exists>u. formatValue v = u @ [dquote]"
    then obtain u where u: "formatValue v = u @ [dquote]" by blast
    from assms(3) have "safeTail L ((k @ ''='' @ u) @ dquote # [])"
      by (intro safeTail_intro) simp_all
    then show ?thesis by (simp add: u del: formatValue.simps)
  next
    assume "\<exists>u. formatValue v = u @ ''}''"
    then obtain u where u: "formatValue v = u @ ''}''" by blast
    from assms(4) have "safeTail L ((k @ ''='' @ u) @ CHR ''}'' # [])"
      by (intro safeTail_intro) simp_all
    then show ?thesis by (simp add: u del: formatValue.simps)
  qed
qed

lemma join_last: "xs \<noteq> [] \<Longrightarrow> \<exists>q. join sep xs = q @ last xs"
proof (induction sep xs rule: join.induct)
  case (3 sep x y ys)
  then obtain q where "join sep (y # ys) = q @ last (y # ys)" by auto
  then have "join sep (x # y # ys) = (x @ sep @ q) @ last (x # y # ys)" by simp
  then show ?case by blast
qed auto

lemma compactPairs_safeTail:
  assumes "pr \<in> set (compactPairs item options)"
    and "CHR ''='' \<notin> set L" and "dquote \<notin> set L" and "CHR ''}'' \<notin> set L"
  shows "safeTail L pr"
proof -
  from assms(1) obtain k v where kv: "(k, v) \<in> set (filterFields (flattenObject item []) (opt_fields options))"
    and pr: "pr = k @ ''='' @ formatValue v"
    by (auto simp: compactPairs_def)
  from kv have "(k, v) \<in> set (flattenObject item [])"
    by (auto simp: filterFields_def split: option.splits)
  with flattenObject_flat [of item "[]"] have "isFlat v"
    by (auto simp: list_all_iff)
  then show ?thesis unfolding pr using assms(2,3,4) by (rule pair_safeTail)
qed

lemma compactLine_safeTail:
  assumes "CHR '' '' \<notin> set L" and "CHR ''='' \<notin> set L" and "dquote \<notin> set L"
    and "CHR ''}'' \<notin> set L"
  shows "safeTail L (compactLine options i item)"
proof (cases "compactPairs item options = []")
  case True
  have "safeTail L ((''  ['' @ showInt (int i + 1) @ '']'') @ CHR '' '' # [])"
    using assms(1) by (intro safeTail_intro) simp_all
  with True show ?thesis by (simp add: compactLine_def)
next
  case False
  then obtain q where q: "join '' '' (compactPairs item options)
      = q @ last (compactPairs item options)"
    using join_last by blast
  have "last (compactPairs item options) \<in> set (compactPairs item options)"
    using False by simp
  then have "safeTail L (last (compactPairs item options))"
    using assms(2,3,4) by (rule compactPairs_safeTail)
  then have "safeTail L ((''  ['' @ showInt (int i + 1) @ ''] '' @ q)
      @ last (compactPairs item options))"
    by (rule safeTail_prepend)
  then show ?thesis by (simp add: compactLine_def q)
qed

lemma compactLines_safeTail:
  assumes "CHR '' '' \<notin> set L" and "CHR ''='' \<notin> set L" and "dquote \<notin> set L"
    and "CHR ''}'' \<notin> set L"
  shows "l \<in> set (compactLines options i its) \<Longrightarrow> safeTail L l"
proof (induction its arbitrary: i)
  case Nil
  then show ?case by simp
next
  case (Cons item its)
  then show ?case using compactLine_safeTail [OF assms] by auto
qed

lemma compactHeader_safeTail:
  assumes "CHR ''='' \<notin> set L"
  shows "safeTail L (compactHeader type d)"
proof -
  have "safeTail L ((type @ '' '' @ showInt (rangeStart (pagination d)) @ ''-''
      @ showInt (rangeEnd d) @ ''/'' @ showInt (totalCount (pagination d)) @ '' page'')
      @ CHR ''='' # showInt (page (pagination d)))"
    using assms showInt_no_space by (intro safeTail_intro) simp_all
  then show ?thesis by (simp add: compactHeader_def)
qed

lemma concat_lines_last:
  "ls \<noteq> [] \<Longrightarrow> \<exists>q. concat (map (\<lambda>l. newline # l) ls) = q @ last ls"
proof (induction ls)
  case Nil
  then show ?case by simp
next
  case (Cons l ls)
  show ?case
  proof (cases "ls = []")
    case True
    then have "concat (map (\<lambda>l. newline # l) (l # ls)) = [newline] @ last (l # ls)" by simp
    then show ?thesis by blast
  next
    case False
    with Cons.IH obtain q where "concat (map (\<lambda>l. newline # l) ls) = q @ last ls" by blast
    with False have "concat (map (\<lambda>l. newline # l) (l # ls)) = (newline # l @ q) @ last (l # ls)"
      by simp
    then show ?thesis by blast
  qed
qed

lemma compact_body_safeTail:
  assumes "CHR '' '' \<notin> set L" and "CHR ''='' \<notin> set L" and "dquote \<notin> set L"
    and "CHR ''}'' \<notin> set L"
  shows "safeTail L (compactHeader type d
           @ concat (map (\<lambda>l. newline # l) (compactLines options 0 (items d))))"
proof (cases "compactLines options 0 (items d) = []")
  case True
  then show ?thesis using compactHeader_safeTail [OF assms(2)] by simp
next
  case False
  then obtain q where q: "concat (map (\<lambda>l. newline # l) (compactLines options 0 (items d)))
      = q @ last (compactLines options 0 (items d))"
    using concat_lines_last by blast
  have "last (compactLines options 0 (items d)) \<in> set (compactLines options 0 (items d))"
    using False by simp
  then have "safeTail L (last (compactLines options 0 (items d)))"
    by (rule compactLines_safeTail [OF assms])
  then have "safeTail L ((compactHeader type d @ q) @ last (compactLines options 0 (items d)))"
    by (rule safeTail_prepend)
  then show ?thesis by (simp add: q)
qed

lemma formatCompactList_structure:
  assumes "\<not> (totalCount (pagination d) = 0 \<and> items d = [])"
  shows "formatCompactList type d options =
           compactHeader type d
           @ concat (map (\<lambda>l. newline # l) (compactLines options 0 (items d)))
           @ (if rangeEnd d < totalCount (pagination d)
              then newline # nextHint type (pagination d) else [])"
  using assms by (auto simp add: formatCompactList_def Let_def join_Cons)

lemma formatCompactList_next_iff:
  assumes "\<not> (totalCount (pagination d) = 0 \<and> items d = [])"
  shows "suffix (newline # nextHint type (pagination d)) (formatCompactList type d options)
           = (rangeEnd d < totalCount (pagination d))"
proof (cases "rangeEnd d < totalCount (pagination d)")
  case True
  then have "formatCompactList type d options =
      (compactHeader type d @ concat (map (\<lambda>l. newline # l) (compactLines options 0 (items d))))
      @ newline # nextHint type (pagination d)"
    by (simp add: formatCompactList_structure [OF assms])
  then have "suffix (newline # nextHint type (pagination d)) (formatCompactList type d options)"
    unfolding suffix_def by blast
  with True show ?thesis by simp
next
  case False
  let ?L = "showInt (limit (pagination d))"
  have body: "formatCompactList type d options =
      compactHeader type d @ concat (map (\<lambda>l. newline # l) (compactLines options 0 (items d)))"
    using False by (simp add: formatCompactList_structure [OF assms])
  have st: "safeTail ?L (formatCompactList type d options)"
    unfolding body
    by (rule compact_body_safeTail)
       (rule showInt_no_space showInt_no_equals showInt_no_dquote showInt_no_brace)+
  have hint: "newline # nextHint type (pagination d)
      = (newline # ''next: polar '' @ type @ '' list --page ''
           @ showInt (page (pagination d) + 1) @ '' --limit'') @ CHR '' '' # ?L"
    by (simp add: nextHint_def)
  have "\<not> suffix (newline # nextHint type (pagination d)) (formatCompactList type d options)"
    unfolding hint
    using st showInt_nonempty showInt_no_space by (rule safeTail_no_suffix)
  with False show ?thesis by simp
qed

text \<open>
  Claim C1. For a list rendered in compact format with pagination \<open>page\<close>, \<open>limit\<close>,
  \<open>totalCount\<close> and \<open>n\<close> items, unless \<open>totalCount = 0\<close> and \<open>n = 0\<close>: the output
  starts with the header line, the plural name, \<open>start-end/totalCount\<close> and \<open>page=page\<close>,
  where \<open>start = (page - 1) * limit + 1\<close> and \<open>end = start + n - 1\<close>; the header is the
  whole output or is followed by a newline; the item lines follow, one for each item; and
  the output ends with the line \<^verbatim>\<open>next: polar <plural> list --page <page+1> --limit <limit>\<close>
  if and only if \<open>end < totalCount\<close>.
\<close>

theorem compact_list_header_and_next:
  assumes "\<not> (tot = 0 \<and> its = [])"
  shows "let rstart = (pg - 1) * lim + 1;
             rend = rstart + int (length its) - 1;
             header = type @ '' '' @ showInt rstart @ ''-'' @ showInt rend @ ''/''
                        @ showInt tot @ '' page='' @ showInt pg;
             hint = ''next: polar '' @ type @ '' list --page '' @ showInt (pg + 1)
                      @ '' --limit '' @ showInt lim;
             out = formatCompactList type
                     \<lparr>items = its, pagination = \<lparr>page = pg, limit = lim, totalCount = tot\<rparr>\<rparr>
                     options
         in out = header @ concat (map (\<lambda>l. newline # l) (compactLines options 0 its))
                    @ (if rend < tot then newline # hint else [])
            \<and> (out = header \<or> prefix (header @ [newline]) out)
            \<and> suffix (newline # hint) out = (rend < tot)"
proof -
  let ?d = "\<lparr>items = its, pagination = \<lparr>page = pg, limit = lim, totalCount = tot\<rparr>\<rparr>"
  let ?out = "formatCompactList type ?d options"
  let ?rend = "(pg - 1) * lim + 1 + int (length its) - 1"
  let ?header = "type @ '' '' @ showInt ((pg - 1) * lim + 1) @ ''-'' @ showInt ?rend @ ''/''
                   @ showInt tot @ '' page='' @ showInt pg"
  let ?hint = "''next: polar '' @ type @ '' list --page '' @ showInt (pg + 1)
                 @ '' --limit '' @ showInt lim"
  let ?lines = "compactLines options 0 its"
  have d: "\<not> (totalCount (pagination ?d) = 0 \<and> items ?d = [])"
    using assms by simp
  have h: "compactHeader type ?d = ?header"
    by (simp add: compactHeader_def rangeStart_def rangeEnd_def)
  have n: "nextHint type (pagination ?d) = ?hint"
    by (simp add: nextHint_def)
  have e: "rangeEnd ?d = ?rend"
    by (simp add: rangeEnd_def rangeStart_def)
  have s1: "?out = ?header @ concat (map (\<lambda>l. newline # l) ?lines)
                    @ (if ?rend < tot then newline # ?hint else [])"
    using formatCompactList_structure [OF d, of type options]
    by (simp only: h n e) simp
  have s2: "?out = ?header \<or> prefix (?header @ [newline]) ?out"
  proof (cases "?lines = [] \<and> \<not> ?rend < tot")
    case True
    then show ?thesis using s1 by simp
  next
    case False
    then have "\<exists>r. concat (map (\<lambda>l. newline # l) ?lines)
                    @ (if ?rend < tot then newline # ?hint else []) = newline # r"
      by (cases ?lines) auto
    then obtain r where "?out = (?header @ [newline]) @ r"
      using s1 by auto
    then have "prefix (?header @ [newline]) ?out"
      unfolding prefix_def by blast
    then show ?thesis by blast
  qed
  have s3: "suffix (newline # ?hint) ?out = (?rend < tot)"
    using formatCompactList_next_iff [OF d, of type options]
    by (simp only: n e) simp
  from s1 s2 s3 show ?thesis
    unfolding Let_def by blast
qed

theorem compact_list_header_and_next_witness:
  "\<not> ((25::int) = 0 \<and> [[(''id'', JStr ''c1'')], [(''id'', JStr ''c2'')], [(''id'', JStr ''c3'')]] = [])
   \<and> formatCompactList ''customers''
        \<lparr>items = [[(''id'', JStr ''c1'')], [(''id'', JStr ''c2'')], [(''id'', JStr ''c3'')]],
         pagination = \<lparr>page = 3, limit = 3, totalCount = 25\<rparr>\<rparr> None
      = ''customers 7-9/25 page=3'' @ [newline] @ ''  [1] id=c1'' @ [newline] @ ''  [2] id=c2''
          @ [newline] @ ''  [3] id=c3'' @ [newline]
          @ ''next: polar customers list --page 4 --limit 3''
   \<and> suffix (newline # ''next: polar customers list --page 4 --limit 3'')
        (formatCompactList ''customers''
          \<lparr>items = [[(''id'', JStr ''c1'')], [(''id'', JStr ''c2'')], [(''id'', JStr ''c3'')]],
           pagination = \<lparr>page = 3, limit = 3, totalCount = 25\<rparr>\<rparr> None)
   \<and> \<not> ((5::int) = 0 \<and> [[(''id'', JStr ''prod_123''), (''name'', JStr ''Pro'')]] = [])
   \<and> \<not> suffix (newline # ''next: polar products list --page 6 --limit 1'')
        (formatCompactList ''products''
          \<lparr>items = [[(''id'', JStr ''prod_123''), (''name'', JStr ''Pro'')]],
           pagination = \<lparr>page = 5, limit = 1, totalCount = 5\<rparr>\<rparr> None)"
proof -
  have a: "\<not> ((25::int) = 0 \<and> [[(''id'', JStr ''c1'')], [(''id'', JStr ''c2'')], [(''id'', JStr ''c3'')]] = [])"
    by simp
  have b: "\<not> ((5::int) = 0 \<and> [[(''id'', JStr ''prod_123''), (''name'', JStr ''Pro'')]] = [])"
    by simp
  note A = compact_list_header_and_next [OF a, of 3 3 "''customers''" None, unfolded Let_def]
  note B = compact_list_header_and_next [OF b, of 5 1 "''products''" None, unfolded Let_def]
  have c2: "formatCompactList ''customers''
        \<lparr>items = [[(''id'', JStr ''c1'')], [(''id'', JStr ''c2'')], [(''id'', JStr ''c3'')]],
         pagination = \<lparr>page = 3, limit = 3, totalCount = 25\<rparr>\<rparr> None
      = ''customers 7-9/25 page=3'' @ [newline] @ ''  [1] id=c1'' @ [newline] @ ''  [2] id=c2''
          @ [newline] @ ''  [3] id=c3'' @ [newline]
          @ ''next: polar customers list --page 4 --limit 3''"
    using A [THEN conjunct1]
    by (simp add: compactLine_def compactPairs_def filterFields_def opt_fields_def showInt_def
        showNat.simps digit_char_def iso_pattern_def MAX_STRING_LENGTH_def)
  have c3: "suffix (newline # ''next: polar customers list --page 4 --limit 3'')
        (formatCompactList ''customers''
          \<lparr>items = [[(''id'', JStr ''c1'')], [(''id'', JStr ''c2'')], [(''id'', JStr ''c3'')]],
           pagination = \<lparr>page = 3, limit = 3, totalCount = 25\<rparr>\<rparr> None)"
    using A [THEN conjunct2, THEN conjunct2]
    by (simp add: showInt_def showNat.simps digit_char_def)
  have c5: "\<not> suffix (newline # ''next: polar products list --page 6 --limit 1'')
        (formatCompactList ''products''
          \<lparr>items = [[(''id'', JStr ''prod_123''), (''name'', JStr ''Pro'')]],
           pagination = \<lparr>page = 5, limit = 1, totalCount = 5\<rparr>\<rparr> None)"
    using B [THEN conjunct2, THEN conjunct2]
    by (simp add: showInt_def showNat.simps digit_char_def)
  from a c2 c3 b c5 show ?thesis by blast
qed

end
